theory Spec2Isabelle
  imports Complex_Main "HOL-Library.Word" "HOL-Library.Log_Nat"
begin

section \<open>JavaScript strings\<close>

text \<open>
  A JavaScript string is a sequence of 16-bit code units. The bullet character of the tip
  parser (U+2022) and most of the white space that \<^verbatim>\<open>trim\<close> and \<^verbatim>\<open>\s\<close> recognise lie outside
  Latin-1, so the code units are modelled as 16-bit words. \<open>js\<close> embeds an ASCII literal.
\<close>

type_synonym uchar = "16 word"
type_synonym jsstring = "uchar list"

definition js :: "string \<Rightarrow> jsstring" where
  "js s = map of_char s"

text \<open>ECMAScript LineTerminator: LF, CR, LS, PS. The regular expression atom \<^verbatim>\<open>.\<close> (no
  \<^verbatim>\<open>s\<close> flag) matches every code unit but these.\<close>

definition isLineTerminator :: "uchar \<Rightarrow> bool" where
  "isLineTerminator c = (c = 0x0A \<or> c = 0x0D \<or> c = 0x2028 \<or> c = 0x2029)"

text \<open>ECMAScript WhiteSpace: TAB, VT, FF, SP, NBSP, ZWNBSP and the category Zs.\<close>

definition isWhiteSpace :: "uchar \<Rightarrow> bool" where
  "isWhiteSpace c = (c = 0x09 \<or> c = 0x0B \<or> c = 0x0C \<or> c = 0x20 \<or> c = 0xA0 \<or> c = 0x1680
     \<or> (0x2000 \<le> c \<and> c \<le> 0x200A) \<or> c = 0x202F \<or> c = 0x205F \<or> c = 0x3000 \<or> c = 0xFEFF)"

text \<open>The class \<^verbatim>\<open>\s\<close>, which is also what \<^verbatim>\<open>String.prototype.trim\<close> removes.\<close>

definition isSpace :: "uchar \<Rightarrow> bool" where
  "isSpace c = (isWhiteSpace c \<or> isLineTerminator c)"

definition trim :: "jsstring \<Rightarrow> jsstring" where
  "trim s = rev (dropWhile isSpace (rev (dropWhile isSpace s)))"

text \<open>\<^verbatim>\<open>text.split('\n')\<close>: the empty string splits into one empty line, and a trailing line
  feed yields a last empty line.\<close>

fun split_nl :: "jsstring \<Rightarrow> jsstring list" where
  "split_nl [] = [[]]"
| "split_nl (c # cs) =
     (if c = 0x0A then [] # split_nl cs
      else (case split_nl cs of [] \<Rightarrow> [[c]] | l # ls \<Rightarrow> (c # l) # ls))"

text \<open>The decimal digits of a natural number, most significant first.\<close>

fun decimal :: "nat \<Rightarrow> jsstring" where
  "decimal n = (if n < 10 then [of_nat (48 + n)] else decimal (n div 10) @ [of_nat (48 + n mod 10)])"

declare decimal.simps [simp del]

text \<open>\<^verbatim>\<open>'T-' + x\<close> for an integral Number \<open>x\<close> (below \<open>10^21\<close> in magnitude, where JavaScript
  prints plain decimal digits).\<close>

definition Number_toString :: "int \<Rightarrow> jsstring" where
  "Number_toString i = (if i < 0 then 0x2D # decimal (nat (- i)) else decimal (nat i))"

text \<open>\<^verbatim>\<open>`${v}`\<close> for a value that is a string or \<^verbatim>\<open>undefined\<close>.\<close>

definition templ :: "jsstring option \<Rightarrow> jsstring" where
  "templ v = (case v of None \<Rightarrow> js ''undefined'' | Some s \<Rightarrow> s)"

text \<open>\<^verbatim>\<open>v || ''\<close> for a value that is a string or \<^verbatim>\<open>undefined\<close>: both \<^verbatim>\<open>undefined\<close> and the
  empty string are falsy.\<close>

definition orEmpty :: "jsstring option \<Rightarrow> jsstring" where
  "orEmpty v = (case v of None \<Rightarrow> [] | Some s \<Rightarrow> if s = [] then [] else s)"

section \<open>JavaScript Numbers\<close>

text \<open>
  A Number is an IEEE 754 binary64 value. A finite Number is modelled as the real number it
  denotes, and an arithmetic operation as the exact operation followed by \<open>round64\<close>, rounding
  to nearest with ties to even: a real \<open>x\<close> with \<open>2^e \<le> |x| < 2^(e+1)\<close> is rounded to a multiple
  of \<open>2^(e-52)\<close>, and to a multiple of \<open>2^(-1074)\<close> in the subnormal range. \<open>binexp\<close> is the
  exponent \<open>e\<close>, computed from the bit length of the integer part (of the reciprocal, below 1).
  Infinities and NaN have no counterpart: the model covers results below \<open>2^1024\<close> in
  magnitude, far above any clock time or ticket number.
\<close>

definition binexp :: "real \<Rightarrow> int" where
  "binexp x = (if 1 \<le> x then bitlen \<lfloor>x\<rfloor> - 1 else - bitlen (\<lceil>1 / x\<rceil> - 1))"

definition roundTiesToEven :: "real \<Rightarrow> int" where
  "roundTiesToEven q =
     (let f = \<lfloor>q\<rfloor>; d = q - of_int f
      in if d < 1 / 2 then f else if 1 / 2 < d then f + 1 else if even f then f else f + 1)"

definition ulp :: "real \<Rightarrow> real" where
  "ulp x = 2 powi max (binexp \<bar>x\<bar> - 52) (- 1074)"

definition round64 :: "real \<Rightarrow> real" where
  "round64 x = ulp x * of_int (roundTiesToEven (x / ulp x))"

text \<open>The reals that are Numbers.\<close>

definition isDouble :: "real \<Rightarrow> bool" where
  "isDouble x = (round64 x = x)"

section \<open>Data model (types.ts and the shapes liveManager.ts uses)\<close>

record TicketData =
  correo :: jsstring
  municipalidad :: jsstring
  sistema :: jsstring
  descripcion :: jsstring
  timestamp :: jsstring
  ticketId :: "jsstring option"

record EmailDraft =
  subject :: jsstring
  body :: jsstring

text \<open>\<^verbatim>\<open>SolutionData\<close> is imported from the types module; its two fields are the ones
  \<^verbatim>\<open>generateTroubleshootingTips\<close> fills.\<close>

record SolutionData =
  title :: jsstring
  steps :: "jsstring list"

text \<open>A function call of the remote model that carries its argument object: identifier, name
  and the argument object, whose properties the tool declarations type as strings. A property
  that is absent reads as \<^verbatim>\<open>undefined\<close>. The call as the SDK types it, where the argument
  object itself may be missing, is \<open>FunctionCall\<close>.\<close>

record function_call =
  fc_id :: jsstring
  fc_name :: jsstring
  fc_args :: "string \<rightharpoonup> jsstring"

text \<open>A function call as the SDK types it: the argument object is optional
  (\<^verbatim>\<open>args?: Record<string, unknown>\<close>).\<close>

record FunctionCall =
  call_id :: jsstring
  call_name :: jsstring
  call_args :: "(string \<rightharpoonup> jsstring) option"

text \<open>An inbound message, with the three optional chains of the handler flattened:
  \<^verbatim>\<open>msg.toolCall.functionCalls\<close>, \<^verbatim>\<open>msg.serverContent?.modelTurn?.parts?.[0]?.inlineData?.data\<close>
  and \<^verbatim>\<open>msg.serverContent?.interrupted\<close>.\<close>

record server_msg =
  toolCall :: "function_call list option"
  audioData :: "jsstring option"
  interrupted :: bool

text \<open>An inbound message whose function calls are as the SDK types them.\<close>

record LiveServerMessage =
  functionCalls :: "FunctionCall list option"
  inlineData :: "jsstring option"
  interruptedFlag :: bool

text \<open>What the handler reads from its environment while it processes one message: the value of
  \<^verbatim>\<open>Math.random()\<close> and of \<^verbatim>\<open>new Date().toISOString()\<close> for the function call at each
  position, the audio clock at line 199, the duration of the buffer that
  \<^verbatim>\<open>decodeAudioData(decodeBase64(audioData), ctx)\<close> returns (the audio utilities are not part of
  the sources and are taken to return a buffer), and the audio clock at line 210.
  Random values, times and durations are Numbers.\<close>

record msg_env =
  mathRandom :: "nat \<Rightarrow> real"
  isoNow :: "nat \<Rightarrow> jsstring"
  clockAtStart :: real
  bufferDuration :: real
  clockAtInterrupt :: real

text \<open>The prompt of a generation request is a fixed template around these values; the
  template text is not modelled.\<close>

datatype prompt =
    TipsPrompt "jsstring option" "jsstring option"
  | EmailPrompt TicketData

text \<open>How \<^verbatim>\<open>await this.ai.models.generateContent(...)\<close> settles: it rejects, or it fulfils
  with a response whose \<^verbatim>\<open>text\<close> may be undefined.\<close>

datatype gen_result = GenFailed | GenResponse "jsstring option"

text \<open>The observable actions of the manager, in the order it performs them.\<close>

datatype action =
    ConsoleLog
  | ConsoleError
  | GenerateContent prompt
  | GenerationSettled gen_result
  | ToolResponse jsstring jsstring jsstring
  | TicketCreated TicketData
  | EmailReady EmailDraft
  | SolutionsReady SolutionData
  | OnError jsstring
  | OnClose
  | SourceStart real real
  | SessionClose nat
  | ProcessorDisconnect nat
  | InputSourceDisconnect nat
  | StopTracks nat
  | AudioContextClose nat

text \<open>Promise reactions waiting in the microtask queue: the callback of
  \<^verbatim>\<open>sessionPromise.then(session => session.sendToolResponse(...))\<close>, the rest of the message
  handler after \<^verbatim>\<open>await decodeAudioData(...)\<close> (with the values it closes over), and the
  callback of \<^verbatim>\<open>sessionPromise.then(s => s.close())\<close>.\<close>

datatype task =
    SendTask jsstring jsstring jsstring
  | ResumeAudioTask real bool real
  | CloseTask nat

text \<open>The rest of an async function suspended at \<^verbatim>\<open>await generateContent\<close>, with the values it
  closes over.\<close>

datatype cont =
    TipsCont "jsstring option"
  | EmailCont TicketData jsstring jsstring

text \<open>The only cleanup function \<^verbatim>\<open>connect\<close> registers closes the session.\<close>

datatype cleanup = CloseSession nat

record LiveManager =
  audioContext :: "nat option"
  stream :: "nat option"
  processor :: "nat option"
  inputSource :: "nat option"
  nextStartTime :: real
  cleanupFunctions :: "cleanup list"

text \<open>
  The manager inside the single-threaded event loop. \<open>microtasks\<close> is the queue of promise
  reactions, \<open>awaiting\<close> the suspended generation calls, \<open>trace\<close> the actions performed so far.
  Every tool invocation gets the next ordinal \<open>nextInv\<close>; queue entries, suspended calls and
  actions carry the ordinal of the invocation they belong to (\<open>None\<close> for playback and
  lifecycle). The ordinals are bookkeeping: no branch below reads them, except to find the
  suspended call that a generation result belongs to.
\<close>

record world = LiveManager +
  microtasks :: "(nat option \<times> task) list"
  awaiting :: "(nat \<times> cont) list"
  nextInv :: nat
  trace :: "(nat option \<times> action) list"

text \<open>How a piece of the handler ends: it returns, or it throws a TypeError; either way with
  the state it has reached.\<close>

datatype completion = Returned world | Threw world

datatype event =
    Message server_msg msg_env
  | Generated nat gen_result
  | DisconnectCall
  | SessionClosed
  | SessionError

definition emit :: "nat option \<Rightarrow> action \<Rightarrow> world \<Rightarrow> world" where
  "emit origin a w = w\<lparr>trace := trace w @ [(origin, a)]\<rparr>"

definition enqueue :: "nat option \<Rightarrow> task \<Rightarrow> world \<Rightarrow> world" where
  "enqueue origin t w = w\<lparr>microtasks := microtasks w @ [(origin, t)]\<rparr>"

section \<open>Ticket identifier (line 177)\<close>

text \<open>\<^verbatim>\<open>'T-' + Math.floor(10000 + Math.random() * 90000)\<close>, for the value \<open>r\<close> of
  \<^verbatim>\<open>Math.random()\<close>: the product is rounded, then the sum; \<^verbatim>\<open>Math.floor\<close> is exact.\<close>

definition newTicketId :: "real \<Rightarrow> jsstring" where
  "newTicketId r = js ''T-'' @ Number_toString \<lfloor>round64 (10000 + round64 (r * 90000))\<rfloor>"

section \<open>Troubleshooting tips (lines 242-276)\<close>

text \<open>\<^verbatim>\<open>line.replace(/^[-*\<bullet>]\s*/, '')\<close>: one leading hyphen, asterisk or bullet (U+2022) and the
  white space after it.\<close>

definition stripBullet :: "jsstring \<Rightarrow> jsstring" where
  "stripBullet line =
     (case line of
        [] \<Rightarrow> []
      | c # cs \<Rightarrow> if c = 0x2D \<or> c = 0x2A \<or> c = 0x2022 then dropWhile isSpace cs else line)"

definition tipSteps :: "jsstring \<Rightarrow> jsstring list" where
  "tipSteps text =
     take 3 (filter (\<lambda>line. 0 < length line) (map (\<lambda>line. trim (stripBullet line)) (split_nl text)))"

text \<open>The call up to its \<^verbatim>\<open>await\<close>: the request goes out and the rest is suspended.\<close>

definition generateTroubleshootingTips ::
  "nat \<Rightarrow> jsstring option \<Rightarrow> jsstring option \<Rightarrow> world \<Rightarrow> world" where
  "generateTroubleshootingTips n system description w =
     (emit (Some n) (GenerateContent (TipsPrompt system description)) w)
       \<lparr>awaiting := awaiting w @ [(n, TipsCont system)]\<rparr>"

text \<open>The call after its \<^verbatim>\<open>await\<close>: the \<^verbatim>\<open>catch\<close> branch only logs.\<close>

definition generateTroubleshootingTips_resumed ::
  "nat \<Rightarrow> jsstring option \<Rightarrow> gen_result \<Rightarrow> world \<Rightarrow> world" where
  "generateTroubleshootingTips_resumed n system r w =
     (case r of
        GenFailed \<Rightarrow> emit (Some n) ConsoleError w
      | GenResponse t \<Rightarrow>
          (let st = tipSteps (orEmpty t) in
           if 0 < length st
           then emit (Some n)
                  (SolutionsReady \<lparr>title = js ''Posibles Soluciones: '' @ templ system, steps = st\<rparr>) w
           else w))"

section \<open>Email draft (lines 278-330)\<close>

text \<open>Canonicalisation of the \<^verbatim>\<open>i\<close> flag, restricted to what can match the pattern
  \<^verbatim>\<open>Asunto:\<close>: without the \<^verbatim>\<open>u\<close> flag a code unit above 127 never canonicalises to an ASCII
  letter, so only the two ASCII cases of each letter match.\<close>

definition canon :: "uchar \<Rightarrow> uchar" where
  "canon c = (if 0x61 \<le> c \<and> c \<le> 0x7A then c - 0x20 else c)"

definition startsWithAsunto :: "jsstring \<Rightarrow> bool" where
  "startsWithAsunto text = (map canon (take 7 text) = js ''ASUNTO:'')"

text \<open>\<^verbatim>\<open>fullText.match(/^Asunto:\s*(.*)/i)\<close>, reduced to its capture group: after the marker
  the greedy \<^verbatim>\<open>\s*\<close> takes all white space, line terminators included, and the greedy
  \<^verbatim>\<open>(.*)\<close> runs to the next line terminator.\<close>

definition subjectMatch :: "jsstring \<Rightarrow> jsstring option" where
  "subjectMatch fullText =
     (if startsWithAsunto fullText
      then Some (takeWhile (\<lambda>c. \<not> isLineTerminator c) (dropWhile isSpace (drop 7 fullText)))
      else None)"

text \<open>\<^verbatim>\<open>fullText.replace(/^Asunto:.*\n+/i, '')\<close>: \<^verbatim>\<open>.*\<close> runs to the first line terminator,
  which has to be a line feed for \<^verbatim>\<open>\n+\<close> to match (giving characters back cannot help, none
  of them is a line feed); the match, with every line feed that follows, is removed. Where
  the pattern does not match, the text is unchanged.\<close>

definition removeSubjectLine :: "jsstring \<Rightarrow> jsstring" where
  "removeSubjectLine fullText =
     (if startsWithAsunto fullText
      then (case dropWhile (\<lambda>c. \<not> isLineTerminator c) (drop 7 fullText) of
              [] \<Rightarrow> fullText
            | c # cs \<Rightarrow> if c = 0x0A then dropWhile (\<lambda>c. c = 0x0A) cs else fullText)
      else fullText)"

definition emailDraftOf :: "TicketData \<Rightarrow> jsstring \<Rightarrow> EmailDraft" where
  "emailDraftOf uiTicket fullText =
     (case subjectMatch fullText of
        None \<Rightarrow>
          \<lparr>subject = js ''Ticket '' @ templ (ticketId uiTicket) @ js '' - Soporte '' @ municipalidad uiTicket,
           body = fullText\<rparr>
      | Some m \<Rightarrow> \<lparr>subject = trim m, body = trim (removeSubjectLine fullText)\<rparr>)"

definition generateEmailDraft :: "nat \<Rightarrow> TicketData \<Rightarrow> jsstring \<Rightarrow> jsstring \<Rightarrow> world \<Rightarrow> world" where
  "generateEmailDraft n uiTicket toolId toolName w =
     (emit (Some n) (GenerateContent (EmailPrompt uiTicket)) w)
       \<lparr>awaiting := awaiting w @ [(n, EmailCont uiTicket toolId toolName)]\<rparr>"

definition generateEmailDraft_resumed ::
  "nat \<Rightarrow> TicketData \<Rightarrow> jsstring \<Rightarrow> jsstring \<Rightarrow> gen_result \<Rightarrow> world \<Rightarrow> world" where
  "generateEmailDraft_resumed n uiTicket toolId toolName r w =
     (case r of
        GenFailed \<Rightarrow>
          enqueue (Some n)
            (SendTask toolId toolName
               (js ''Error generando borrador, pero el ticket '' @ templ (ticketId uiTicket)
                  @ js '' fue registrado.''))
            (emit (Some n) ConsoleError w)
      | GenResponse t \<Rightarrow>
          enqueue (Some n)
            (SendTask toolId toolName
               (js ''Ticket registrado exitosamente. ID del Ticket: '' @ templ (ticketId uiTicket)
                  @ js ''. Borrador de correo generado.''))
            (emit (Some n) (EmailReady (emailDraftOf uiTicket (orEmpty t))) w))"

section \<open>The message handler (lines 150-212)\<close>

text \<open>The body of the loop over the function calls, for the call at position \<open>i\<close>, when the
  call carries its argument object (\<open>handle_FunctionCall\<close> below is the body for every call).\<close>

definition handle_call :: "msg_env \<Rightarrow> nat \<Rightarrow> function_call \<Rightarrow> world \<Rightarrow> world" where
  "handle_call env i fc w =
     (let n = nextInv w in
      if fc_name fc = js ''analyzeProblem'' then
        generateTroubleshootingTips n (fc_args fc ''sistema'') (fc_args fc ''problemDescription'')
          (enqueue (Some n)
             (SendTask (fc_id fc) (fc_name fc) (js ''Solutions generated and displayed on screen.''))
             (emit (Some n) ConsoleLog (w\<lparr>nextInv := Suc n\<rparr>)))
      else if fc_name fc = js ''registerSupportTicket'' then
        (let uiTicket =
               \<lparr>correo = orEmpty (fc_args fc ''correo''),
                municipalidad = orEmpty (fc_args fc ''municipalidad''),
                sistema = orEmpty (fc_args fc ''sistema''),
                descripcion = orEmpty (fc_args fc ''descripcion''),
                timestamp = isoNow env i,
                ticketId = Some (newTicketId (mathRandom env i))\<rparr>
         in generateEmailDraft n uiTicket (fc_id fc) (fc_name fc)
              (emit (Some n) (TicketCreated uiTicket) (w\<lparr>nextInv := Suc n\<rparr>)))
      else w)"

fun handle_calls :: "msg_env \<Rightarrow> nat \<Rightarrow> function_call list \<Rightarrow> world \<Rightarrow> world" where
  "handle_calls env i [] w = w"
| "handle_calls env i (fc # fcs) w = handle_calls env (Suc i) fcs (handle_call env i fc w)"

text \<open>
  The body of the loop for every call. The handler reads the argument object as
  \<^verbatim>\<open>fc.args as any\<close> and then reads its properties, so for a call without argument object the
  first property access throws a TypeError: in the analyze-problem branch at line 170, after
  the log entry and after the response was queued; in the register-ticket branch at line 180,
  before anything is done. The exception leaves the loop and the handler, whose promise
  rejects unobserved: the calls that follow, the audio and the interruption signal of the
  message are skipped, and what is in the microtask queue still runs.
\<close>

definition handle_FunctionCall :: "msg_env \<Rightarrow> nat \<Rightarrow> FunctionCall \<Rightarrow> world \<Rightarrow> completion" where
  "handle_FunctionCall env i fc w =
     (let n = nextInv w in
      if call_name fc = js ''analyzeProblem'' then
        (let w1 = enqueue (Some n)
                    (SendTask (call_id fc) (call_name fc)
                       (js ''Solutions generated and displayed on screen.''))
                    (emit (Some n) ConsoleLog (w\<lparr>nextInv := Suc n\<rparr>))
         in case call_args fc of
              None \<Rightarrow> Threw w1
            | Some args \<Rightarrow>
                Returned
                  (generateTroubleshootingTips n (args ''sistema'') (args ''problemDescription'') w1))
      else if call_name fc = js ''registerSupportTicket'' then
        (case call_args fc of
           None \<Rightarrow> Threw w
         | Some args \<Rightarrow>
             (let uiTicket =
                    \<lparr>correo = orEmpty (args ''correo''),
                     municipalidad = orEmpty (args ''municipalidad''),
                     sistema = orEmpty (args ''sistema''),
                     descripcion = orEmpty (args ''descripcion''),
                     timestamp = isoNow env i,
                     ticketId = Some (newTicketId (mathRandom env i))\<rparr>
              in Returned
                   (generateEmailDraft n uiTicket (call_id fc) (call_name fc)
                      (emit (Some n) (TicketCreated uiTicket) (w\<lparr>nextInv := Suc n\<rparr>)))))
      else Returned w)"

fun handle_FunctionCalls :: "msg_env \<Rightarrow> nat \<Rightarrow> FunctionCall list \<Rightarrow> world \<Rightarrow> completion" where
  "handle_FunctionCalls env i [] w = Returned w"
| "handle_FunctionCalls env i (fc # fcs) w =
     (case handle_FunctionCall env i fc w of
        Threw w' \<Rightarrow> Threw w'
      | Returned w' \<Rightarrow> handle_FunctionCalls env (Suc i) fcs w')"

text \<open>Lines 209-211.\<close>

definition handleInterruption :: "bool \<Rightarrow> real \<Rightarrow> world \<Rightarrow> world" where
  "handleInterruption intr clock w =
     (if intr
      then w\<lparr>nextStartTime := (case audioContext w of None \<Rightarrow> 0 | Some ctx \<Rightarrow> clock)\<rparr>
      else w)"

text \<open>The handler up to \<^verbatim>\<open>await decodeAudioData\<close>. Without audio data (or without an audio
  context) there is no \<^verbatim>\<open>await\<close> and the interruption check follows at once. With audio
  data the rest of the handler is a promise reaction: decoding is taken to be settled when it
  is awaited (it copies samples into a buffer), so the rest runs in the same task, after the
  reactions queued before it, and no other message is handled in between.\<close>

definition onmessage :: "server_msg \<Rightarrow> msg_env \<Rightarrow> world \<Rightarrow> world" where
  "onmessage msg env w =
     (let w1 = (case toolCall msg of None \<Rightarrow> w | Some fcs \<Rightarrow> handle_calls env 0 fcs w) in
      if (case audioData msg of None \<Rightarrow> False | Some d \<Rightarrow> d \<noteq> []) \<and> audioContext w1 \<noteq> None
      then enqueue None
             (ResumeAudioTask (bufferDuration env) (interrupted msg) (clockAtInterrupt env))
             (w1\<lparr>nextStartTime := max (nextStartTime w1) (clockAtStart env)\<rparr>)
      else handleInterruption (interrupted msg) (clockAtInterrupt env) w1)"

text \<open>The whole handler up to its \<^verbatim>\<open>await\<close>: after the loop over the calls it goes on as
  \<open>onmessage\<close> does for a message without tool calls.\<close>

definition onmessage_sdk :: "LiveServerMessage \<Rightarrow> msg_env \<Rightarrow> world \<Rightarrow> completion" where
  "onmessage_sdk msg env w =
     (case (case functionCalls msg of
              None \<Rightarrow> Returned w
            | Some fcs \<Rightarrow> handle_FunctionCalls env 0 fcs w) of
        Threw w' \<Rightarrow> Threw w'
      | Returned w1 \<Rightarrow>
          Returned
            (onmessage \<lparr>toolCall = None, audioData = inlineData msg, interrupted = interruptedFlag msg\<rparr>
               env w1))"

text \<open>The handler after the \<^verbatim>\<open>await\<close> (lines 201-211). Should the audio context have been
  released meanwhile, \<^verbatim>\<open>createBufferSource\<close> throws and the handler ends there.
  \<^verbatim>\<open>this.nextStartTime += buffer.duration\<close> is an addition of Numbers, so the sum is rounded.\<close>

definition onmessage_resumed :: "real \<Rightarrow> bool \<Rightarrow> real \<Rightarrow> world \<Rightarrow> world" where
  "onmessage_resumed duration intr clock w =
     (case audioContext w of
        None \<Rightarrow> w
      | Some ctx \<Rightarrow>
          handleInterruption intr clock
            ((emit None (SourceStart (nextStartTime w) duration) w)
               \<lparr>nextStartTime := round64 (nextStartTime w + duration)\<rparr>))"

section \<open>Teardown (lines 213-222 and 332-345)\<close>

definition run_cleanup :: "cleanup \<Rightarrow> world \<Rightarrow> world" where
  "run_cleanup fn w = (case fn of CloseSession k \<Rightarrow> enqueue None (CloseTask k) w)"

definition disconnect :: "world \<Rightarrow> world" where
  "disconnect w =
     (let w1 = foldl (\<lambda>v fn. run_cleanup fn v) w (cleanupFunctions w);
          w2 = w1\<lparr>cleanupFunctions := []\<rparr>;
          w3 = (case processor w2 of None \<Rightarrow> w2 | Some h \<Rightarrow> emit None (ProcessorDisconnect h) w2);
          w4 = (case inputSource w3 of None \<Rightarrow> w3 | Some h \<Rightarrow> emit None (InputSourceDisconnect h) w3);
          w5 = (case stream w4 of None \<Rightarrow> w4 | Some h \<Rightarrow> emit None (StopTracks h) w4);
          w6 = (case audioContext w5 of None \<Rightarrow> w5 | Some h \<Rightarrow> emit None (AudioContextClose h) w5)
      in w6\<lparr>processor := None, inputSource := None, stream := None, audioContext := None\<rparr>)"

definition onclose :: "world \<Rightarrow> world" where
  "onclose w = emit None OnClose (disconnect w)"

definition onerror :: "world \<Rightarrow> world" where
  "onerror w =
     emit None OnClose
       (disconnect
          (emit None
             (OnError (js ''Error de conexi'' @ [0xF3] @ js ''n con el servidor de IA. Verifique su red.''))
             (emit None ConsoleError w)))"

section \<open>The event loop\<close>

text \<open>
  The session promise is fulfilled whenever a callback of the session runs, so a
  \<^verbatim>\<open>sessionPromise.then(f)\<close> puts \<open>f\<close> into the microtask queue at once. A generation call is a
  network round trip: it settles in a later task, the event \<open>Generated\<close>.
\<close>

definition run_task :: "nat option \<Rightarrow> task \<Rightarrow> world \<Rightarrow> world" where
  "run_task origin t w =
     (case t of
        SendTask i nm r \<Rightarrow> emit origin (ToolResponse i nm r) w
      | ResumeAudioTask d intr clock \<Rightarrow> onmessage_resumed d intr clock w
      | CloseTask k \<Rightarrow> emit origin (SessionClose k) w)"

text \<open>After every task the microtask queue is run until it is empty.\<close>

function drain :: "world \<Rightarrow> world" where
  "drain w =
     (case microtasks w of
        [] \<Rightarrow> w
      | ot # rest \<Rightarrow> drain (run_task (fst ot) (snd ot) (w\<lparr>microtasks := rest\<rparr>)))"
  by pat_completeness auto
termination
proof (relation "measure (\<lambda>w. length (microtasks w))")
  show "wf (measure (\<lambda>w. length (microtasks w)))"
    by simp
next
  fix w :: world and ot rest
  assume q: "microtasks w = ot # rest"
  have "microtasks (run_task (fst ot) (snd ot) (w\<lparr>microtasks := rest\<rparr>)) = rest"
    by (cases "snd ot")
      (simp_all add: run_task_def emit_def onmessage_resumed_def handleInterruption_def
        split: option.splits)
  with q show "(run_task (fst ot) (snd ot) (w\<lparr>microtasks := rest\<rparr>), w)
      \<in> measure (\<lambda>w. length (microtasks w))"
    by simp
qed

declare drain.simps [simp del]

text \<open>A generation result resumes the call that waits for it.\<close>

definition resolve :: "nat \<Rightarrow> gen_result \<Rightarrow> world \<Rightarrow> world" where
  "resolve n r w =
     (case map_of (awaiting w) n of
        None \<Rightarrow> w
      | Some c \<Rightarrow>
          (let w1 = emit (Some n) (GenerationSettled r)
                      (w\<lparr>awaiting := filter (\<lambda>e. fst e \<noteq> n) (awaiting w)\<rparr>)
           in case c of
                TipsCont system \<Rightarrow> generateTroubleshootingTips_resumed n system r w1
              | EmailCont uiTicket toolId toolName \<Rightarrow>
                  generateEmailDraft_resumed n uiTicket toolId toolName r w1))"

definition step :: "world \<Rightarrow> event \<Rightarrow> world" where
  "step w ev =
     drain
       (case ev of
          Message msg env \<Rightarrow> onmessage msg env w
        | Generated n r \<Rightarrow> resolve n r w
        | DisconnectCall \<Rightarrow> disconnect w
        | SessionClosed \<Rightarrow> onclose w
        | SessionError \<Rightarrow> onerror w)"

text \<open>One task of the event loop for such a message: the handler, then the microtask queue,
  however the handler ended.\<close>

definition step_sdk :: "world \<Rightarrow> LiveServerMessage \<Rightarrow> msg_env \<Rightarrow> world" where
  "step_sdk w msg env = drain (case onmessage_sdk msg env w of Returned w' \<Rightarrow> w' | Threw w' \<Rightarrow> w')"

definition run :: "world \<Rightarrow> event list \<Rightarrow> world" where
  "run w evs = foldl step w evs"

section \<open>Notions used in the statements\<close>

text \<open>A call that carries its argument object, and a message all of whose calls do, in the
  shape the sections above use.\<close>

definition withArgs :: "FunctionCall \<Rightarrow> function_call" where
  "withArgs fc =
     \<lparr>fc_id = call_id fc, fc_name = call_name fc,
      fc_args = (case call_args fc of None \<Rightarrow> Map.empty | Some args \<Rightarrow> args)\<rparr>"

definition complete :: "LiveServerMessage \<Rightarrow> bool" where
  "complete msg =
     (case functionCalls msg of None \<Rightarrow> True | Some fcs \<Rightarrow> list_all (\<lambda>fc. call_args fc \<noteq> None) fcs)"

definition withAllArgs :: "LiveServerMessage \<Rightarrow> server_msg" where
  "withAllArgs msg =
     \<lparr>toolCall = map_option (map withArgs) (functionCalls msg), audioData = inlineData msg,
      interrupted = interruptedFlag msg\<rparr>"

definition isDigit :: "uchar \<Rightarrow> bool" where
  "isDigit c = (0x30 \<le> c \<and> c \<le> 0x39)"

text \<open>The manager as its constructor leaves it (lines 67-84), in an idle event loop.\<close>

definition freshManager :: world where
  "freshManager =
     \<lparr>audioContext = None, stream = None, processor = None, inputSource = None,
      nextStartTime = 0, cleanupFunctions = [],
      microtasks = [], awaiting = [], nextInv = 0, trace = []\<rparr>"

text \<open>Concrete inputs for the examples.\<close>

definition demoEnv :: msg_env where
  "demoEnv = \<lparr>mathRandom = (\<lambda>i. 1 / 2), isoNow = (\<lambda>i. js ''2025-01-01T00:00:00.000Z''),
     clockAtStart = 2, bufferDuration = 1, clockAtInterrupt = 3\<rparr>"

text \<open>The Number 0.5527555555555556.\<close>

definition demoRandom :: real where
  "demoRandom = 4978779428053943 / 2 ^ 53"

definition demoRegister :: function_call where
  "demoRegister = \<lparr>fc_id = js ''call-1'', fc_name = js ''registerSupportTicket'',
     fc_args = [''correo'' \<mapsto> js ''ana@muni.cl'', ''municipalidad'' \<mapsto> js ''ExampleCity'',
                ''ticketId'' \<mapsto> js ''T-00001'']\<rparr>"

text \<open>The close tasks that running the cleanup functions leaves in the queue, one each.\<close>

definition closeTasks :: "cleanup list \<Rightarrow> (nat option \<times> task) list" where
  "closeTasks fns = map (\<lambda>fn. case fn of CloseSession k \<Rightarrow> (None, CloseTask k)) fns"

text \<open>The devices a manager holds, as the release actions of one teardown.\<close>

definition releases :: "world \<Rightarrow> (nat option \<times> action) list" where
  "releases w =
     (case processor w of None \<Rightarrow> [] | Some h \<Rightarrow> [(None, ProcessorDisconnect h)])
     @ (case inputSource w of None \<Rightarrow> [] | Some h \<Rightarrow> [(None, InputSourceDisconnect h)])
     @ (case stream w of None \<Rightarrow> [] | Some h \<Rightarrow> [(None, StopTracks h)])
     @ (case audioContext w of None \<Rightarrow> [] | Some h \<Rightarrow> [(None, AudioContextClose h)])"

definition demoTicket :: TicketData where
  "demoTicket = \<lparr>correo = js ''ana@muni.cl'', municipalidad = js ''ExampleCity'', sistema = js ''bodega'',
     descripcion = js ''no abre'', timestamp = js ''2025-01-01T00:00:00.000Z'',
     ticketId = Some (js ''T-12345'')\<rparr>"

text \<open>
  The draft as the specification words it, to compare with \<open>emailDraftOf\<close>: a text that begins
  with the marker \<^verbatim>\<open>Asunto:\<close> gives as subject the remainder of that line, trimmed, and as body
  the full text with the marker line stripped; any other text gives the synthesised subject
  and the full text.
\<close>

definition claimedSubject :: "jsstring \<Rightarrow> jsstring" where
  "claimedSubject text = trim (takeWhile (\<lambda>c. c \<noteq> 0x0A) (drop 7 text))"

definition claimedBody :: "jsstring \<Rightarrow> jsstring" where
  "claimedBody text = (case dropWhile (\<lambda>c. c \<noteq> 0x0A) text of [] \<Rightarrow> [] | c # cs \<Rightarrow> cs)"

definition claimedDraft :: "TicketData \<Rightarrow> jsstring \<Rightarrow> EmailDraft" where
  "claimedDraft uiTicket text =
     (if take 7 text = js ''Asunto:''
      then \<lparr>subject = claimedSubject text, body = claimedBody text\<rparr>
      else \<lparr>subject = js ''Ticket '' @ templ (ticketId uiTicket) @ js '' - Soporte '' @ municipalidad uiTicket,
            body = text\<rparr>)"

text \<open>
  The steps as the specification words them, to compare with \<open>tipSteps\<close>. The lines of a text
  are the strings without line feed that, joined by line feeds, give the text. A bullet marker
  is leading when it is the first character of its line; \<open>unmarked\<close> takes one such marker off.
  \<open>trims s c\<close> says that \<open>c\<close> is \<open>s\<close> without its leading and trailing white space: \<open>c\<close> sits in
  \<open>s\<close> between two runs of white space, and is empty or begins and ends with a character that
  is not white space. \<open>cleans l c\<close> says that \<open>c\<close> is the line \<open>l\<close> with its leading bullet
  marker stripped and its white space trimmed.
\<close>

definition isBullet :: "uchar \<Rightarrow> bool" where
  "isBullet c = (c = 0x2D \<or> c = 0x2A \<or> c = 0x2022)"

fun joinLines :: "jsstring list \<Rightarrow> jsstring" where
  "joinLines [] = []"
| "joinLines [l] = l"
| "joinLines (l # l' # ls) = l @ 0x0A # joinLines (l' # ls)"

definition trimmed :: "jsstring \<Rightarrow> bool" where
  "trimmed c = (c \<noteq> [] \<and> \<not> isSpace (hd c) \<and> \<not> isSpace (last c))"

definition unmarked :: "jsstring \<Rightarrow> jsstring" where
  "unmarked l = (case l of [] \<Rightarrow> [] | m # r \<Rightarrow> if isBullet m then r else l)"

definition trims :: "jsstring \<Rightarrow> jsstring \<Rightarrow> bool" where
  "trims s c =
     ((c = [] \<or> trimmed c)
      \<and> list_ex (\<lambda>i. list_all isSpace (take i s) \<and> take (length c) (drop i s) = c
                      \<and> list_all isSpace (drop (i + length c) s))
           [0..<Suc (length s)])"

definition cleans :: "jsstring \<Rightarrow> jsstring \<Rightarrow> bool" where
  "cleans l c = trims (unmarked l) c"

text \<open>Seven lines, five of them bulleted: trailing blanks, an empty line, several blanks
  after the marker, a marker followed by a tab only, an indented line without marker, and two
  more bulleted lines; and the same lines cleaned.\<close>

definition demoTipLines :: "jsstring list" where
  "demoTipLines =
     [js ''- Reiniciar el servicio.  '', [], js ''*   Verificar la red.'', [0x2D, 0x09],
      js ''  Borrar el cache.'', 0x2022 # js '' Llamar a soporte.'', js ''- Esperar.'']"

definition demoCleaned :: "jsstring list" where
  "demoCleaned =
     [js ''Reiniciar el servicio.'', [], js ''Verificar la red.'', [],
      js ''Borrar el cache.'', js ''Llamar a soporte.'', js ''Esperar.'']"

text \<open>Running the entries of a microtask queue in order.\<close>

definition run_tasks :: "(nat option \<times> task) list \<Rightarrow> world \<Rightarrow> world" where
  "run_tasks q w = foldl (\<lambda>v ot. run_task (fst ot) (snd ot) v) w q"

text \<open>The test \<^verbatim>\<open>audioData\<close> of line 198: the data is there and is not the empty string.\<close>

definition hasAudio :: "server_msg \<Rightarrow> bool" where
  "hasAudio msg = (case audioData msg of None \<Rightarrow> False | Some d \<Rightarrow> d \<noteq> [])"

text \<open>The playback that a trace schedules: start time and duration of every \<^verbatim>\<open>source.start\<close>.\<close>

fun starts :: "(nat option \<times> action) list \<Rightarrow> (real \<times> real) list" where
  "starts [] = []"
| "starts (e # tr) = (case snd e of SourceStart s d \<Rightarrow> (s, d) # starts tr | _ \<Rightarrow> starts tr)"

definition isSend :: "nat option \<times> task \<Rightarrow> bool" where
  "isSend ot = (case snd ot of SendTask i nm r \<Rightarrow> True | _ \<Rightarrow> False)"

text \<open>A manager after a successful \<^verbatim>\<open>connect\<close>: devices held, one cleanup function registered.\<close>

definition connectedManager :: world where
  "connectedManager =
     freshManager\<lparr>audioContext := Some 0, stream := Some 1, inputSource := Some 2, processor := Some 3,
       cleanupFunctions := [CloseSession 0]\<rparr>"

definition interruptionMsg :: server_msg where
  "interruptionMsg = \<lparr>toolCall = None, audioData = None, interrupted = True\<rparr>"

definition audioMsg :: server_msg where
  "audioMsg = \<lparr>toolCall = None, audioData = Some (js ''AAAA''), interrupted = False\<rparr>"

text \<open>
  The schedule as the specification words it, for segments given by the clock at their
  processing and their duration: the start is the maximum of the cursor and the clock, and the
  cursor then advances by the duration, start and duration being added as Numbers.
  \<open>gapless\<close> says that each start is at least the previous start plus the previous duration,
  the sum taken exactly; \<open>seamless\<close> says the same of the sum of Numbers, which is rounded.
\<close>

fun schedule :: "real \<Rightarrow> (real \<times> real) list \<Rightarrow> (real \<times> real) list" where
  "schedule c [] = []"
| "schedule c (td # tds) =
     (max c (fst td), snd td) # schedule (round64 (max c (fst td) + snd td)) tds"

fun cursorAfter :: "real \<Rightarrow> (real \<times> real) list \<Rightarrow> real" where
  "cursorAfter c [] = c"
| "cursorAfter c (td # tds) = cursorAfter (round64 (max c (fst td) + snd td)) tds"

fun gapless :: "(real \<times> real) list \<Rightarrow> bool" where
  "gapless [] = True"
| "gapless [sd] = True"
| "gapless (sd # sd' # sds) = (fst sd + snd sd \<le> fst sd' \<and> gapless (sd' # sds))"

fun seamless :: "(real \<times> real) list \<Rightarrow> bool" where
  "seamless [] = True"
| "seamless [sd] = True"
| "seamless (sd # sd' # sds) = (round64 (fst sd + snd sd) \<le> fst sd' \<and> seamless (sd' # sds))"

text \<open>An event that neither interrupts the playback nor releases the audio context: a message
  without the interruption signal (it may carry audio, tool calls, both or neither), or the
  result of a generation call.\<close>

definition keepsPlaying :: "event \<Rightarrow> bool" where
  "keepsPlaying ev =
     (case ev of Message msg env \<Rightarrow> \<not> interrupted msg | Generated n g \<Rightarrow> True | _ \<Rightarrow> False)"

text \<open>The audio segments among the events, in order: for each message that carries audio, the
  clock at its processing and the duration of its buffer.\<close>

definition arrival :: "event \<Rightarrow> (real \<times> real) list" where
  "arrival ev =
     (case ev of
        Message msg env \<Rightarrow> if hasAudio msg then [(clockAtStart env, bufferDuration env)] else []
      | _ \<Rightarrow> [])"

definition arrivals :: "event list \<Rightarrow> (real \<times> real) list" where
  "arrivals evs = concat (map arrival evs)"

text \<open>The Numbers 0.1, 0.7 and 0.7999999999999999; the last is the sum of the first two as
  Numbers, and lies below their exact sum.\<close>

definition tenth :: real where
  "tenth = 3602879701896397 / 2 ^ 55"

definition sevenTenths :: real where
  "sevenTenths = 3152519739159347 / 2 ^ 52"

definition roundedSum :: real where
  "roundedSum = 7205759403792793 / 2 ^ 53"

definition firstSegment :: event where
  "firstSegment =
     Message \<lparr>toolCall = None, audioData = Some (js ''AAAA''), interrupted = False\<rparr>
       \<lparr>mathRandom = (\<lambda>i. 1 / 2), isoNow = (\<lambda>i. js ''2025-01-01T00:00:00.000Z''),
        clockAtStart = tenth, bufferDuration = sevenTenths, clockAtInterrupt = tenth\<rparr>"

definition secondSegment :: event where
  "secondSegment =
     Message \<lparr>toolCall = None, audioData = Some (js ''AAAA''), interrupted = False\<rparr>
       \<lparr>mathRandom = (\<lambda>i. 1 / 2), isoNow = (\<lambda>i. js ''2025-01-01T00:00:00.000Z''),
        clockAtStart = 1 / 2, bufferDuration = 1, clockAtInterrupt = 1 / 2\<rparr>"

text \<open>
  What one tool invocation has done so far, what it has waiting in the microtask queue, and
  what it has suspended at a generation call.
\<close>

definition history :: "nat \<Rightarrow> world \<Rightarrow> action list" where
  "history n w = map snd (filter (\<lambda>e. fst e = Some n) (trace w))"

definition queued :: "nat \<Rightarrow> world \<Rightarrow> task list" where
  "queued n w = map snd (filter (\<lambda>e. fst e = Some n) (microtasks w))"

definition waiting :: "nat \<Rightarrow> world \<Rightarrow> cont list" where
  "waiting n w = map snd (filter (\<lambda>e. fst e = n) (awaiting w))"

text \<open>
  The outcome of a generation call as the specification words it: for the tips, a failure is
  logged and nothing else, a response yields the solutions-ready event if it has a step; for
  the draft, a failure is logged and a response yields the email-ready event, and the tool
  result says which of the two happened.
\<close>

definition analyzeResult :: jsstring where
  "analyzeResult = js ''Solutions generated and displayed on screen.''"

definition tipsOutcome :: "jsstring option \<Rightarrow> gen_result \<Rightarrow> action list" where
  "tipsOutcome system g =
     (case g of
        GenFailed \<Rightarrow> [ConsoleError]
      | GenResponse t \<Rightarrow>
          if tipSteps (orEmpty t) = [] then []
          else [SolutionsReady \<lparr>title = js ''Posibles Soluciones: '' @ templ system,
                                 steps = tipSteps (orEmpty t)\<rparr>])"

definition draftOutcome :: "TicketData \<Rightarrow> gen_result \<Rightarrow> action" where
  "draftOutcome uiTicket g =
     (case g of
        GenFailed \<Rightarrow> ConsoleError
      | GenResponse t \<Rightarrow> EmailReady (emailDraftOf uiTicket (orEmpty t)))"

definition draftResult :: "TicketData \<Rightarrow> gen_result \<Rightarrow> jsstring" where
  "draftResult uiTicket g =
     (case g of
        GenFailed \<Rightarrow>
          js ''Error generando borrador, pero el ticket '' @ templ (ticketId uiTicket)
            @ js '' fue registrado.''
      | GenResponse t \<Rightarrow>
          js ''Ticket registrado exitosamente. ID del Ticket: '' @ templ (ticketId uiTicket)
            @ js ''. Borrador de correo generado.'')"

text \<open>
  The course of an invocation. analyze-problem: the response is queued when the request goes
  out, is sent when the queue runs, and the request settles later. register-ticket: the draft
  request is pending, settles (the response is queued), and the response is sent.
  \<open>hist_of\<close>, \<open>queue_of\<close> and \<open>wait_of\<close> say what an invocation in a phase has done, has
  queued and has suspended.
\<close>

datatype phase =
    Unused
  | AnalyzeQueued "jsstring option" "jsstring option" jsstring jsstring
  | AnalyzeAnswered "jsstring option" "jsstring option" jsstring jsstring
  | AnalyzeSettled "jsstring option" "jsstring option" jsstring jsstring gen_result
  | RegisterPending TicketData jsstring jsstring
  | RegisterSettled TicketData jsstring jsstring gen_result
  | RegisterAnswered TicketData jsstring jsstring gen_result

fun hist_of :: "phase \<Rightarrow> action list" where
  "hist_of Unused = []"
| "hist_of (AnalyzeQueued s d i nm) = [ConsoleLog, GenerateContent (TipsPrompt s d)]"
| "hist_of (AnalyzeAnswered s d i nm) =
     [ConsoleLog, GenerateContent (TipsPrompt s d), ToolResponse i nm analyzeResult]"
| "hist_of (AnalyzeSettled s d i nm g) =
     [ConsoleLog, GenerateContent (TipsPrompt s d), ToolResponse i nm analyzeResult,
      GenerationSettled g] @ tipsOutcome s g"
| "hist_of (RegisterPending t i nm) = [TicketCreated t, GenerateContent (EmailPrompt t)]"
| "hist_of (RegisterSettled t i nm g) =
     [TicketCreated t, GenerateContent (EmailPrompt t), GenerationSettled g, draftOutcome t g]"
| "hist_of (RegisterAnswered t i nm g) =
     [TicketCreated t, GenerateContent (EmailPrompt t), GenerationSettled g, draftOutcome t g,
      ToolResponse i nm (draftResult t g)]"

fun queue_of :: "phase \<Rightarrow> task list" where
  "queue_of (AnalyzeQueued s d i nm) = [SendTask i nm analyzeResult]"
| "queue_of (RegisterSettled t i nm g) = [SendTask i nm (draftResult t g)]"
| "queue_of ph = []"

fun wait_of :: "phase \<Rightarrow> cont list" where
  "wait_of (AnalyzeQueued s d i nm) = [TipsCont s]"
| "wait_of (AnalyzeAnswered s d i nm) = [TipsCont s]"
| "wait_of (RegisterPending t i nm) = [EmailCont t i nm]"
| "wait_of ph = []"

fun ticket_of :: "phase \<Rightarrow> TicketData option" where
  "ticket_of (RegisterPending t i nm) = Some t"
| "ticket_of (RegisterSettled t i nm g) = Some t"
| "ticket_of (RegisterAnswered t i nm g) = Some t"
| "ticket_of ph = None"

definition inPhase :: "nat \<Rightarrow> world \<Rightarrow> phase \<Rightarrow> bool" where
  "inPhase n w ph =
     (history n w = hist_of ph \<and> queued n w = queue_of ph \<and> waiting n w = wait_of ph
      \<and> (case ticket_of ph of None \<Rightarrow> True | Some t \<Rightarrow> ticketId t \<noteq> None))"

definition consistent :: "world \<Rightarrow> bool" where
  "consistent w = ((\<forall>n. \<exists>ph. inPhase n w ph) \<and> (\<forall>n. nextInv w \<le> n \<longrightarrow> inPhase n w Unused))"


definition demoAnalyze :: function_call where
  "demoAnalyze = \<lparr>fc_id = js ''call-0'', fc_name = js ''analyzeProblem'',
     fc_args = [''sistema'' \<mapsto> js ''bodega'', ''problemDescription'' \<mapsto> js ''no abre'']\<rparr>"

definition toolMsg :: "function_call \<Rightarrow> server_msg" where
  "toolMsg fc = \<lparr>toolCall = Some [fc], audioData = None, interrupted = False\<rparr>"

definition demoCreated :: TicketData where
  "demoCreated = demoTicket\<lparr>sistema := [], descripcion := [], ticketId := Some (js ''T-55000'')\<rparr>"


text \<open>A register-ticket call without argument object, alone in its message.\<close>

definition bareRegister :: FunctionCall where
  "bareRegister = \<lparr>call_id = js ''call-1'', call_name = js ''registerSupportTicket'', call_args = None\<rparr>"

definition bareMsg :: LiveServerMessage where
  "bareMsg = \<lparr>functionCalls = Some [bareRegister], inlineData = None, interruptedFlag = False\<rparr>"

section \<open>Basic facts\<close>

subsection \<open>Rounding to binary64\<close>

lemma powi_nat: "0 \<le> k \<Longrightarrow> (2::real) powi k = 2 ^ nat k"
  by (simp add: power_int_def)

lemma binexp_bounds:
  assumes "0 < x"
  shows "2 powi binexp x \<le> x" and "x < 2 powi (binexp x + 1)"
proof -
  have "2 powi binexp x \<le> x \<and> x < 2 powi (binexp x + 1)"
  proof (cases "1 \<le> x")
    case True
    define n where "n = \<lfloor>x\<rfloor>"
    from True have n: "0 < n" by (simp add: n_def)
    define b where "b = bitlen n"
    from n have b: "1 \<le> b" by (simp add: b_def bitlen_ge_iff_power)
    from bitlen_bounds [OF n] have lo: "2 ^ nat (b - 1) \<le> n" and hi: "n < 2 ^ nat b"
      by (simp_all add: b_def)
    have e: "binexp x = b - 1" using True by (simp add: binexp_def n_def b_def)
    from lo have "(2::real) ^ nat (b - 1) \<le> of_int n"
      by (metis of_int_le_iff of_int_numeral of_int_power)
    also have "\<dots> \<le> x" by (simp add: n_def)
    finally have 1: "2 powi (b - 1) \<le> x" using b by (simp add: powi_nat)
    from hi have "n + 1 \<le> 2 ^ nat b" by simp
    then have "of_int (n + 1) \<le> (2::real) ^ nat b"
      by (metis of_int_le_iff of_int_numeral of_int_power)
    moreover have "x < of_int (n + 1)" by (simp add: n_def)
    ultimately have "x < 2 ^ nat b" by linarith
    then have 2: "x < 2 powi b" using b by (simp add: powi_nat)
    from 1 2 show ?thesis by (simp add: e)
  next
    case False
    define y where "y = 1 / x"
    from False assms have y: "1 < y" by (simp add: y_def)
    define m where "m = \<lceil>y\<rceil> - 1"
    from y have m: "0 < m" by (simp add: m_def)
    define k where "k = bitlen m"
    from m have k: "1 \<le> k" by (simp add: k_def bitlen_ge_iff_power)
    from bitlen_bounds [OF m] have lo: "2 ^ nat (k - 1) \<le> m" and hi: "m < 2 ^ nat k"
      by (simp_all add: k_def)
    have e: "binexp x = - k" using False by (simp add: binexp_def y_def m_def k_def)
    have "of_int m < y" unfolding m_def by linarith
    moreover from lo have "(2::real) ^ nat (k - 1) \<le> of_int m"
      by (metis of_int_le_iff of_int_numeral of_int_power)
    ultimately have "2 ^ nat (k - 1) < y" by linarith
    then have ylo: "2 powi (k - 1) < y" using k by (simp add: powi_nat)
    from hi have "m + 1 \<le> 2 ^ nat k" by simp
    then have "of_int (m + 1) \<le> (2::real) ^ nat k"
      by (metis of_int_le_iff of_int_numeral of_int_power)
    moreover have "y \<le> of_int (m + 1)" unfolding m_def by simp
    ultimately have "y \<le> 2 ^ nat k" by linarith
    then have yhi: "y \<le> 2 powi k" using k by (simp add: powi_nat)
    have p: "0 < (2::real) powi j" for j by simp
    from yhi have "1 / (2 powi k) \<le> 1 / y"
      using y by (intro divide_left_mono) (simp_all add: mult_pos_pos)
    then have 1: "2 powi (- k) \<le> x" using assms by (simp add: y_def power_int_minus_divide)
    from ylo have "1 / y < 1 / (2 powi (k - 1))"
      using y by (intro divide_strict_left_mono) (simp_all add: mult_pos_pos)
    moreover have "(2::real) powi (- (k - 1)) = 1 / 2 powi (k - 1)"
      by (rule power_int_minus_divide)
    moreover have "- (k - 1) = - k + 1" by simp
    ultimately have 2: "x < 2 powi (- k + 1)" using assms by (simp add: y_def)
    from 1 2 show ?thesis by (simp add: e)
  qed
  then show "2 powi binexp x \<le> x" and "x < 2 powi (binexp x + 1)" by simp_all
qed

lemma binade_unique:
  fixes x :: real
  assumes "2 powi e \<le> x" "x < 2 powi (e + 1)" "2 powi e' \<le> x" "x < 2 powi (e' + 1)"
  shows "e = e'"
proof (rule ccontr)
  assume "e \<noteq> e'"
  then consider "e + 1 \<le> e'" | "e' + 1 \<le> e" by linarith
  then show False
  proof cases
    case 1
    then have "(2::real) powi (e + 1) \<le> 2 powi e'" by (intro power_int_increasing) simp_all
    with assms show False by linarith
  next
    case 2
    then have "(2::real) powi (e' + 1) \<le> 2 powi e" by (intro power_int_increasing) simp_all
    with assms show False by linarith
  qed
qed

lemma binexp_eq:
  assumes "2 powi e \<le> x" "x < 2 powi (e + 1)"
  shows "binexp x = e"
proof -
  have "0 < (2::real) powi e" by simp
  with assms have x: "0 < x" by linarith
  from binade_unique [OF binexp_bounds [OF x] assms] show ?thesis .
qed

lemma rte_int [simp]: "roundTiesToEven (of_int n) = n"
  by (simp add: roundTiesToEven_def)

lemma rte_floor: "\<lfloor>q\<rfloor> \<le> roundTiesToEven q" "roundTiesToEven q \<le> \<lfloor>q\<rfloor> + 1"
  by (simp_all add: roundTiesToEven_def Let_def)

lemma rte_mono:
  assumes "q \<le> q'"
  shows "roundTiesToEven q \<le> roundTiesToEven q'"
proof (cases "\<lfloor>q\<rfloor> = \<lfloor>q'\<rfloor>")
  case True
  with assms show ?thesis
    by (auto simp add: roundTiesToEven_def Let_def)
next
  case False
  with assms have "\<lfloor>q\<rfloor> < \<lfloor>q'\<rfloor>"
    by (simp add: floor_mono order.not_eq_order_implies_strict)
  with rte_floor(2) [of q] rte_floor(1) [of q'] show ?thesis by linarith
qed

lemma rte_le: "q \<le> of_int n \<Longrightarrow> roundTiesToEven q \<le> n"
  using rte_mono [of q "of_int n"] by simp

lemma rte_ge: "of_int n \<le> q \<Longrightarrow> n \<le> roundTiesToEven q"
  using rte_mono [of "of_int n" q] by simp

lemma rte_0 [simp]: "roundTiesToEven 0 = 0"
  using rte_int [of 0] by simp

lemma round64_0 [simp]: "round64 0 = 0"
  by (simp add: round64_def)

lemma round64_binade:
  assumes "2 powi e \<le> x" "x < 2 powi (e + 1)"
  shows "round64 x = 2 powi max (e - 52) (- 1074)
           * of_int (roundTiesToEven (x / 2 powi max (e - 52) (- 1074)))"
proof -
  have "0 < (2::real) powi e" by simp
  with assms have "0 < x" by linarith
  then have "\<bar>x\<bar> = x" by simp
  with binexp_eq [OF assms] show ?thesis
    by (simp add: round64_def ulp_def)
qed

lemma round64_dyadic:
  assumes "0 \<le> m" "m < 2 ^ 53" "- 1074 \<le> j"
  shows "round64 (of_int m * 2 powi j) = of_int m * 2 powi j"
proof (cases "m = 0")
  case True
  then show ?thesis by simp
next
  case False
  with assms have m: "0 < m" by simp
  define b where "b = bitlen m"
  from m have b1: "1 \<le> b" by (simp add: b_def bitlen_ge_iff_power)
  from assms(2) have b53: "b \<le> 53" by (simp add: b_def bitlen_le_iff_power)
  from bitlen_bounds [OF m] have lo: "2 ^ nat (b - 1) \<le> m" and hi: "m < 2 ^ nat b"
    by (simp_all add: b_def)
  define x where "x = of_int m * (2::real) powi j"
  define e where "e = b - 1 + j"
  have p: "0 < (2::real) powi i" for i by simp
  from lo have "(2::real) ^ nat (b - 1) \<le> of_int m"
    by (metis of_int_le_iff of_int_numeral of_int_power)
  then have "2 powi (b - 1) \<le> (of_int m :: real)" using b1 by (simp add: powi_nat)
  then have "2 powi (b - 1) * 2 powi j \<le> x"
    unfolding x_def by (intro mult_right_mono) simp_all
  then have 1: "2 powi e \<le> x" by (simp add: e_def power_int_add)
  from hi have "of_int m < (2::real) ^ nat b"
    by (metis of_int_less_iff of_int_numeral of_int_power)
  then have "(of_int m :: real) < 2 powi b" using b1 by (simp add: powi_nat)
  then have "x < 2 powi b * 2 powi j"
    unfolding x_def by (intro mult_strict_right_mono) simp_all
  moreover have "e + 1 = b + j" by (simp add: e_def)
  ultimately have 2: "x < 2 powi (e + 1)" by (simp add: power_int_add)
  define E where "E = max (e - 52) (- 1074)"
  from b53 assms(3) have Ej: "E \<le> j" by (simp add: E_def e_def)
  have "x / 2 powi E = of_int m * 2 powi (j - E)"
    by (simp add: x_def power_int_diff)
  also have "\<dots> = of_int m * 2 ^ nat (j - E)" using Ej by (simp add: powi_nat)
  also have "\<dots> = of_int (m * 2 ^ nat (j - E))" by simp
  finally have q: "x / 2 powi E = of_int (m * 2 ^ nat (j - E))" .
  have "round64 x = 2 powi E * of_int (roundTiesToEven (x / 2 powi E))"
    unfolding E_def by (rule round64_binade [OF 1 2])
  also have "\<dots> = 2 powi E * (x / 2 powi E)"
    unfolding q by (simp only: rte_int)
  also have "\<dots> = x" by simp
  finally show ?thesis by (simp add: x_def)
qed

lemma round64_range:
  assumes "2 powi e \<le> x" "x < 2 powi (e + 1)"
  defines "E \<equiv> max (e - 52) (- 1074)"
  defines "k \<equiv> roundTiesToEven (x / 2 powi E)"
  shows "round64 x = 2 powi E * of_int k" and "0 \<le> k" and "k \<le> 2 ^ 53"
    and "- 1022 \<le> e \<Longrightarrow> 2 ^ 52 \<le> k"
proof -
  show "round64 x = 2 powi E * of_int k"
    unfolding E_def k_def by (rule round64_binade [OF assms(1,2)])
  have p: "0 < (2::real) powi i" for i by simp
  from assms(1) p [of e] have x: "0 < x" by linarith
  then have "of_int 0 \<le> x / 2 powi E" by simp
  then show "0 \<le> k" unfolding k_def by (rule rte_ge)
  have "e + 1 - E \<le> 53" by (simp add: E_def)
  then have "(2::real) powi (e + 1 - E) \<le> 2 powi 53" by (intro power_int_increasing) simp_all
  moreover from assms(2) have "x / 2 powi E < 2 powi (e + 1) / 2 powi E"
    by (intro divide_strict_right_mono) simp_all
  then have "x / 2 powi E < 2 powi (e + 1 - E)" by (simp add: power_int_diff)
  ultimately have "x / 2 powi E \<le> of_int (2 ^ 53)" by simp
  then show "k \<le> 2 ^ 53" unfolding k_def by (rule rte_le)
  show "2 ^ 52 \<le> k" if "- 1022 \<le> e"
  proof -
    from that have E: "E = e - 52" by (simp add: E_def)
    from assms(1) have "2 powi e / 2 powi E \<le> x / 2 powi E"
      by (intro divide_right_mono) simp_all
    then have "2 powi (e - E) \<le> x / 2 powi E" by (simp add: power_int_diff)
    then have "of_int (2 ^ 52) \<le> x / 2 powi E" by (simp add: E)
    then show ?thesis unfolding k_def by (rule rte_ge)
  qed
qed

lemma round64_nonneg: "0 \<le> x \<Longrightarrow> 0 \<le> round64 x"
  by (simp add: round64_def ulp_def rte_ge [of 0, simplified])

lemma round64_idem_nonneg:
  assumes "0 \<le> x"
  shows "round64 (round64 x) = round64 x"
proof (cases "x = 0")
  case True
  then show ?thesis by simp
next
  case False
  with assms have x: "0 < x" by simp
  define E where "E = max (binexp x - 52) (- 1074)"
  define k where "k = roundTiesToEven (x / 2 powi E)"
  note r = round64_range [OF binexp_bounds [OF x], folded E_def, folded k_def]
  have E: "- 1074 \<le> E" by (simp add: E_def)
  show ?thesis
  proof (cases "k < 2 ^ 53")
    case True
    with r(2) E show ?thesis
      unfolding r(1) by (simp add: mult.commute [of "2 powi E"] round64_dyadic)
  next
    case False
    with r(3) have k: "k = 2 ^ 53" by simp
    have "2 powi E * of_int k = of_int (2 ^ 52) * (2::real) powi (E + 1)"
      by (simp add: k power_int_add)
    moreover have "round64 (of_int (2 ^ 52) * 2 powi (E + 1)) = of_int (2 ^ 52) * 2 powi (E + 1)"
      using E by (intro round64_dyadic) simp_all
    ultimately show ?thesis unfolding r(1) by simp
  qed
qed

lemma round64_mono_nonneg:
  assumes "0 \<le> x" "x \<le> y"
  shows "round64 x \<le> round64 y"
proof (cases "x = 0")
  case True
  with assms show ?thesis by (simp add: round64_nonneg)
next
  case False
  with assms have x: "0 < x" and y: "0 < y" by simp_all
  define ex where "ex = binexp x"
  define ey where "ey = binexp y"
  define Ex where "Ex = max (ex - 52) (- 1074)"
  define Ey where "Ey = max (ey - 52) (- 1074)"
  note bx = binexp_bounds [OF x, folded ex_def]
  note bY = binexp_bounds [OF y, folded ey_def]
  note rx = round64_range [OF bx, folded Ex_def]
  note ry = round64_range [OF bY, folded Ey_def]
  have "ex \<le> ey"
  proof (rule ccontr)
    assume "\<not> ex \<le> ey"
    then have "ey + 1 \<le> ex" by simp
    then have "(2::real) powi (ey + 1) \<le> 2 powi ex" by (intro power_int_increasing) simp_all
    with bx bY assms show False by linarith
  qed
  then have le: "Ex \<le> Ey" by (simp add: Ex_def Ey_def)
  show ?thesis
  proof (cases "Ex = Ey")
    case True
    from assms(2) have "x / 2 powi Ey \<le> y / 2 powi Ey"
      by (intro divide_right_mono) simp_all
    then have "roundTiesToEven (x / 2 powi Ey) \<le> roundTiesToEven (y / 2 powi Ey)"
      by (rule rte_mono)
    then have "2 powi Ey * of_int (roundTiesToEven (x / 2 powi Ey))
        \<le> 2 powi Ey * (of_int (roundTiesToEven (y / 2 powi Ey)) :: real)"
      by (intro mult_left_mono) simp_all
    then show ?thesis
      using rx(1) ry(1) True by simp
  next
    case False
    with le have lt: "Ex + 1 \<le> Ey" by simp
    then have n: "- 1022 \<le> ey" and Ey: "Ey = ey - 52" by (simp_all add: Ex_def Ey_def)
    have "round64 x \<le> 2 powi Ex * of_int (2 ^ 53)"
      unfolding rx(1) using rx(3) by (intro mult_left_mono) (simp_all only: of_int_le_iff zero_le_power_int zero_le_numeral)
    also have "\<dots> = 2 powi (Ex + 1) * of_int (2 ^ 52)"
      by (simp add: power_int_add)
    also have "\<dots> \<le> 2 powi Ey * of_int (2 ^ 52)"
      using lt by (intro mult_right_mono power_int_increasing) simp_all
    also have "\<dots> \<le> round64 y"
      unfolding ry(1) using ry(4) [OF n] by (intro mult_left_mono) (simp_all only: of_int_le_iff zero_le_power_int zero_le_numeral)
    finally show ?thesis .
  qed
qed

lemma double_below_one:
  assumes "0 \<le> r" "r < 1" "round64 r = r"
  shows "r \<le> 1 - 1 / 2 ^ 53"
proof (cases "r = 0")
  case True
  then show ?thesis by simp
next
  case False
  with assms have r: "0 < r" by simp
  define e where "e = binexp r"
  note b = binexp_bounds [OF r, folded e_def]
  note rr = round64_range [OF b]
  have "e < 0"
  proof (rule ccontr)
    assume "\<not> e < 0"
    then have "(2::real) powi 0 \<le> 2 powi e" by (intro power_int_increasing) simp_all
    with b assms show False by simp
  qed
  show ?thesis
  proof (cases "e = - 1")
    case True
    define k where "k = roundTiesToEven (r / 2 powi (- 53))"
    from rr(1) assms(3) have eq: "r = 2 powi (- 53) * of_int k"
      by (simp add: True k_def)
    with assms(2) have "of_int k < (2::real) ^ 53"
      by (simp add: power_int_minus_divide)
    then have "k < 2 ^ 53"
      by (metis of_int_less_iff of_int_numeral of_int_power)
    then have "k \<le> 2 ^ 53 - 1" by simp
    then have "(of_int k :: real) \<le> of_int (2 ^ 53 - 1)" by (simp only: of_int_le_iff)
    then have "2 powi (- 53) * of_int k \<le> 2 powi (- 53) * (of_int (2 ^ 53 - 1) :: real)"
      by (intro mult_left_mono) simp_all
    with eq show ?thesis by (simp add: power_int_minus_divide)
  next
    case False
    with \<open>e < 0\<close> have "e + 1 \<le> - 1" by simp
    then have "(2::real) powi (e + 1) \<le> 2 powi (- 1)" by (intro power_int_increasing) simp_all
    with b have "r < 1 / 2" by simp
    then show ?thesis by simp
  qed
qed

lemma rte_eval:
  assumes "of_int f \<le> q" "q < of_int f + 1 / 2"
  shows "roundTiesToEven q = f"
proof -
  from assms have "\<lfloor>q\<rfloor> = f" by (intro floor_unique) simp_all
  with assms show ?thesis by (simp add: roundTiesToEven_def)
qed

lemma round64_pmax: "round64 ((1 - 1 / 2 ^ 53) * 90000) = 90000 - 1 / 2 ^ 36"
proof -
  define q :: real where "q = (1 - 1 / 2 ^ 53) * 90000 / 2 powi (- 36)"
  have "roundTiesToEven q = 6184752906239999"
    by (rule rte_eval) (simp_all add: q_def)
  moreover have "round64 ((1 - 1 / 2 ^ 53) * 90000) = 2 powi (- 36) * of_int (roundTiesToEven q)"
    using round64_binade [of 16 "(1 - 1 / 2 ^ 53) * 90000"] by (simp add: q_def)
  ultimately show ?thesis by simp
qed

lemma ticket_number_range:
  assumes "0 \<le> r" "r < 1" "round64 r = r"
  shows "10000 \<le> \<lfloor>round64 (10000 + round64 (r * 90000))\<rfloor>"
    and "\<lfloor>round64 (10000 + round64 (r * 90000))\<rfloor> \<le> 99999"
proof -
  from double_below_one [OF assms] have "r * 90000 \<le> (1 - 1 / 2 ^ 53) * 90000"
    by (intro mult_right_mono) simp_all
  moreover from assms have p0: "0 \<le> r * 90000" by simp
  ultimately have "round64 (r * 90000) \<le> round64 ((1 - 1 / 2 ^ 53) * 90000)"
    by (intro round64_mono_nonneg)
  then have hi: "round64 (r * 90000) \<le> 90000 - 1 / 2 ^ 36"
    by (simp only: round64_pmax)
  from p0 have lo: "0 \<le> round64 (r * 90000)" by (rule round64_nonneg)
  have a: "round64 10000 = 10000"
    using round64_dyadic [of 10000 0] by simp
  have b: "round64 (100000 - 1 / 2 ^ 36) = 100000 - 1 / 2 ^ 36"
    using round64_dyadic [of "100000 * 2 ^ 36 - 1" "- 36"] by (simp add: field_simps)
  from lo have "round64 10000 \<le> round64 (10000 + round64 (r * 90000))"
    by (intro round64_mono_nonneg) simp_all
  then have 1: "10000 \<le> round64 (10000 + round64 (r * 90000))"
    by (simp only: a)
  from lo hi have "round64 (10000 + round64 (r * 90000)) \<le> round64 (100000 - 1 / 2 ^ 36)"
    by (intro round64_mono_nonneg) simp_all
  then have 2: "round64 (10000 + round64 (r * 90000)) \<le> 100000 - 1 / 2 ^ 36"
    by (simp only: b)
  from 1 show "10000 \<le> \<lfloor>round64 (10000 + round64 (r * 90000))\<rfloor>"
    by (simp add: le_floor_iff)
  from 2 have "round64 (10000 + round64 (r * 90000)) < 100000" by simp
  then have "\<lfloor>round64 (10000 + round64 (r * 90000))\<rfloor> < 100000"
    by (simp add: floor_less_iff)
  then show "\<lfloor>round64 (10000 + round64 (r * 90000))\<rfloor> \<le> 99999" by simp
qed

lemma rte_nearest:
  assumes "\<bar>q - of_int f\<bar> < 1 / 2"
  shows "roundTiesToEven q = f"
proof (cases "of_int f \<le> q")
  case True
  with assms show ?thesis by (intro rte_eval) linarith+
next
  case False
  with assms have "\<lfloor>q\<rfloor> = f - 1" by (intro floor_unique) (simp, linarith)+
  with assms False show ?thesis
    by (simp add: roundTiesToEven_def Let_def)
qed

lemma round64_nearest:
  assumes "2 powi e \<le> x" "x < 2 powi (e + 1)" "- 1022 \<le> e"
    and "\<bar>x / 2 powi (e - 52) - of_int f\<bar> < 1 / 2"
  shows "round64 x = of_int f * 2 powi (e - 52)"
proof -
  from assms(3) have "max (e - 52) (- 1074) = e - 52" by simp
  with round64_binade [OF assms(1,2)] rte_nearest [OF assms(4)] show ?thesis by simp
qed

lemma round64_of_int: "0 \<le> m \<Longrightarrow> m < 2 ^ 53 \<Longrightarrow> round64 (of_int m) = of_int m"
  using round64_dyadic [of m 0] by simp

lemma round64_numeral: "(numeral n :: int) < 2 ^ 53 \<Longrightarrow> round64 (numeral n) = numeral n"
  using round64_of_int [of "numeral n"] by simp

lemma rte_minus: "roundTiesToEven (- q) = - roundTiesToEven q"
proof (cases "q = of_int \<lfloor>q\<rfloor>")
  case True
  then obtain n where "q = of_int n" ..
  then have "- q = of_int (- n)" by simp
  then show ?thesis unfolding \<open>q = of_int n\<close> by (simp only: rte_int)
next
  case False
  moreover have "of_int \<lfloor>q\<rfloor> \<le> q" by simp
  ultimately have "of_int \<lfloor>q\<rfloor> < q" by linarith
  then have f: "\<lfloor>- q\<rfloor> = - \<lfloor>q\<rfloor> - 1"
    by (intro floor_unique) (simp; linarith)+
  show ?thesis
    by (simp add: roundTiesToEven_def Let_def f)
qed

lemma ulp_minus: "ulp (- x) = ulp x"
  by (simp add: ulp_def)

lemma round64_minus: "round64 (- x) = - round64 x"
  by (simp add: round64_def ulp_minus rte_minus)

lemma round64_idem: "round64 (round64 x) = round64 x"
proof (cases "0 \<le> x")
  case True
  then show ?thesis by (rule round64_idem_nonneg)
next
  case False
  then have "round64 (round64 (- x)) = round64 (- x)" by (intro round64_idem_nonneg) simp
  then show ?thesis by (simp add: round64_minus)
qed

lemma round64_mono:
  assumes "x \<le> y"
  shows "round64 x \<le> round64 y"
proof -
  consider "0 \<le> x" | "x < 0" "0 \<le> y" | "y < 0" by linarith
  then show ?thesis
  proof cases
    case 1
    with assms show ?thesis by (intro round64_mono_nonneg)
  next
    case 2
    from 2(1) have "0 \<le> round64 (- x)" by (intro round64_nonneg) simp
    then have "round64 x \<le> 0" by (simp add: round64_minus)
    also from 2(2) have "0 \<le> round64 y" by (rule round64_nonneg)
    finally show ?thesis .
  next
    case 3
    with assms have "round64 (- y) \<le> round64 (- x)" by (intro round64_mono_nonneg) simp_all
    then show ?thesis by (simp add: round64_minus)
  qed
qed

subsection \<open>Decimal digits\<close>

lemma digit_isDigit: "d < 10 \<Longrightarrow> isDigit (of_nat (48 + d))"
proof -
  assume d: "d < 10"
  have "unat (of_nat (48 + d) :: uchar) = (48 + d) mod 65536"
    by (simp only: unat_of_nat) simp
  with d have u: "unat (of_nat (48 + d) :: uchar) = 48 + d"
    by simp
  show ?thesis
    unfolding isDigit_def word_le_nat_alt u using d by simp
qed

lemma decimal_digits: "list_all isDigit (decimal n)"
proof (induction n rule: decimal.induct)
  case (1 n)
  show ?case
  proof (cases "n < 10")
    case True
    then show ?thesis by (subst decimal.simps) (simp add: digit_isDigit del: of_nat_add)
  next
    case False
    with 1 have "list_all isDigit (decimal (n div 10))" by simp
    moreover have "isDigit (of_nat (48 + n mod 10))" by (rule digit_isDigit) simp
    ultimately show ?thesis using False by (subst decimal.simps) (simp del: of_nat_add)
  qed
qed

lemma decimal_length: "0 < k \<Longrightarrow> 10 ^ (k - 1) \<le> n \<Longrightarrow> n < 10 ^ k \<Longrightarrow> length (decimal n) = k"
proof (induction k arbitrary: n)
  case 0
  then show ?case by simp
next
  case (Suc k)
  show ?case
  proof (cases "k = 0")
    case True
    with Suc.prems show ?thesis by (subst decimal.simps) simp
  next
    case False
    then have k: "0 < k" by simp
    from k Suc.prems have ge: "10 \<le> n"
    proof -
      have "(10::nat) ^ 1 \<le> 10 ^ k"
        using k by (intro power_increasing) simp_all
      with Suc.prems show ?thesis by simp
    qed
    from k Suc.prems have lo: "10 ^ (k - 1) \<le> n div 10"
      by (cases k) (simp_all add: less_eq_div_iff_mult_less_eq mult.commute)
    from Suc.prems have hi: "n div 10 < 10 ^ k"
      by (simp add: less_mult_imp_div_less mult.commute)
    from Suc.IH [OF k lo hi] ge show ?thesis
      by (subst decimal.simps) simp
  qed
qed

lemma names_differ: "js ''analyzeProblem'' \<noteq> js ''registerSupportTicket''"
  by (simp add: js_def)

lemma handle_call_register:
  assumes "fc_name fc = js ''registerSupportTicket''"
  shows "handle_call env i fc w =
     (let uiTicket =
               \<lparr>correo = orEmpty (fc_args fc ''correo''),
                municipalidad = orEmpty (fc_args fc ''municipalidad''),
                sistema = orEmpty (fc_args fc ''sistema''),
                descripcion = orEmpty (fc_args fc ''descripcion''),
                timestamp = isoNow env i,
                ticketId = Some (newTicketId (mathRandom env i))\<rparr>
      in w\<lparr>nextInv := Suc (nextInv w),
            trace := trace w @ [(Some (nextInv w), TicketCreated uiTicket),
                                (Some (nextInv w), GenerateContent (EmailPrompt uiTicket))],
            awaiting := awaiting w @ [(nextInv w, EmailCont uiTicket (fc_id fc) (fc_name fc))]\<rparr>)"
  using assms names_differ
  by (simp add: handle_call_def generateEmailDraft_def emit_def Let_def)

text \<open>The Number 0.5527555555555556, at which rounding the product changes the integer part:
  in exact arithmetic the sum is just below 59748.\<close>

lemma demoRandom_double: "0 \<le> demoRandom \<and> demoRandom < 1 \<and> isDouble demoRandom"
  using round64_dyadic [of 4978779428053943 "- 53"]
  by (simp add: demoRandom_def isDouble_def)

lemma demoRandom_product: "round64 (demoRandom * 90000) = 49748"
  using round64_nearest [of 15 "demoRandom * 90000" 6837313057325056]
  by (simp add: demoRandom_def)

lemma demoRandom_ticketId: "newTicketId demoRandom = js ''T-59748''"
proof -
  have "round64 (10000 + round64 (demoRandom * 90000)) = 59748"
    by (simp only: demoRandom_product) (simp add: round64_numeral)
  then show ?thesis
    by (simp add: newTicketId_def Number_toString_def decimal.simps js_def)
qed

lemma demoRandom_exact: "\<lfloor>10000 + demoRandom * 90000\<rfloor> = 59747"
  by (simp add: demoRandom_def)

section \<open>Ticket identifiers\<close>

text \<open>
  C9. For every register-ticket invocation and every value of the random source (a Number
  in the interval from 0 to 1, 1 excluded), the ticket that is announced carries the identifier
  \<open>T-\<close> followed by the decimal digits of a number between 10000 and 99999, which are exactly
  five digits. The identifier is computed from the random value alone: the arguments of the
  remote model do not enter it, whatever they contain.
\<close>

theorem ticketId_format:
  assumes "fc_name fc = js ''registerSupportTicket''"
    and "0 \<le> mathRandom env i" and "mathRandom env i < 1" and "isDouble (mathRandom env i)"
  shows "\<exists>uiTicket n.
      trace (handle_call env i fc w) =
        trace w @ [(Some (nextInv w), TicketCreated uiTicket),
                   (Some (nextInv w), GenerateContent (EmailPrompt uiTicket))]
      \<and> ticketId uiTicket = Some (newTicketId (mathRandom env i))
      \<and> newTicketId (mathRandom env i) = js ''T-'' @ decimal n
      \<and> int n = \<lfloor>round64 (10000 + round64 (mathRandom env i * 90000))\<rfloor>
      \<and> 10000 \<le> n \<and> n \<le> 99999 \<and> length (decimal n) = 5 \<and> list_all isDigit (decimal n)"
proof -
  let ?t = "\<lparr>correo = orEmpty (fc_args fc ''correo''),
             municipalidad = orEmpty (fc_args fc ''municipalidad''),
             sistema = orEmpty (fc_args fc ''sistema''),
             descripcion = orEmpty (fc_args fc ''descripcion''),
             timestamp = isoNow env i,
             ticketId = Some (newTicketId (mathRandom env i))\<rparr>"
  let ?z = "\<lfloor>round64 (10000 + round64 (mathRandom env i * 90000))\<rfloor>"
  have tr: "trace (handle_call env i fc w) =
      trace w @ [(Some (nextInv w), TicketCreated ?t), (Some (nextInv w), GenerateContent (EmailPrompt ?t))]"
    by (simp add: handle_call_register [OF assms(1)] Let_def)
  have tid: "ticketId ?t = Some (newTicketId (mathRandom env i))"
    by simp
  from assms(4) have "round64 (mathRandom env i) = mathRandom env i"
    by (simp add: isDouble_def)
  from ticket_number_range [OF assms(2,3) this] have z: "10000 \<le> ?z" "?z \<le> 99999" .
  then have "\<not> ?z < 0" by linarith
  then have id: "newTicketId (mathRandom env i) = js ''T-'' @ decimal (nat ?z)"
    by (simp only: newTicketId_def Number_toString_def if_False)
  from z have n: "int (nat ?z) = ?z" "10000 \<le> nat ?z" "nat ?z \<le> 99999" by linarith+
  from n(2,3) have len: "length (decimal (nat ?z)) = 5"
    by (intro decimal_length) simp_all
  from tr tid id n len decimal_digits [of "nat ?z"] show ?thesis by blast
qed

theorem ticketId_format_witness:
  "fc_name demoRegister = js ''registerSupportTicket''
   \<and> 0 \<le> demoRandom \<and> demoRandom < 1 \<and> isDouble demoRandom
   \<and> \<lfloor>10000 + demoRandom * 90000\<rfloor> = 59747
   \<and> (\<exists>uiTicket. trace (handle_call (demoEnv\<lparr>mathRandom := (\<lambda>i. demoRandom)\<rparr>) 0 demoRegister freshManager) =
         [(Some 0, TicketCreated uiTicket), (Some 0, GenerateContent (EmailPrompt uiTicket))]
       \<and> ticketId uiTicket = Some (js ''T-59748''))"
  using ticketId_format [of demoRegister "demoEnv\<lparr>mathRandom := (\<lambda>i. demoRandom)\<rparr>" 0 freshManager]
    demoRandom_double demoRandom_exact
  by (auto simp add: demoRandom_ticketId demoRegister_def freshManager_def js_def)

section \<open>Teardown\<close>

lemma run_cleanups:
  "foldl (\<lambda>v fn. run_cleanup fn v) w fns = w\<lparr>microtasks := microtasks w @ closeTasks fns\<rparr>"
proof (induction fns arbitrary: w)
  case Nil
  then show ?case by (simp add: closeTasks_def)
next
  case (Cons fn fns)
  then show ?case
    by (cases fn) (simp add: closeTasks_def run_cleanup_def enqueue_def)
qed

lemma disconnect_fields:
  "microtasks (disconnect w) = microtasks w @ closeTasks (cleanupFunctions w)"
  "cleanupFunctions (disconnect w) = []"
  "processor (disconnect w) = None"
  "inputSource (disconnect w) = None"
  "stream (disconnect w) = None"
  "audioContext (disconnect w) = None"
  "nextStartTime (disconnect w) = nextStartTime w"
  "awaiting (disconnect w) = awaiting w"
  "nextInv (disconnect w) = nextInv w"
  "trace (disconnect w) = trace w @ releases w"
  by (simp_all add: disconnect_def run_cleanups Let_def emit_def releases_def split: option.splits)

lemma disconnect_released:
  assumes "cleanupFunctions w = []" "processor w = None" "inputSource w = None"
    "stream w = None" "audioContext w = None"
  shows "disconnect w = w"
  using assms by (simp add: disconnect_def Let_def)

text \<open>
  C7. The first call of \<open>disconnect\<close> runs every registered cleanup function once (each leaves
  its close task in the queue, in order) and releases every device that is held once; after
  it the cleanup list is empty and the processor, the input source, the media stream and the
  audio context are null. A second call changes nothing: it runs no cleanup function, and
  releases nothing.
\<close>

theorem disconnect_twice:
  "disconnect (disconnect w) = disconnect w
   \<and> microtasks (disconnect w) = microtasks w @ closeTasks (cleanupFunctions w)
   \<and> trace (disconnect w) = trace w @ releases w
   \<and> cleanupFunctions (disconnect w) = []
   \<and> processor (disconnect w) = None \<and> inputSource (disconnect w) = None
   \<and> stream (disconnect w) = None \<and> audioContext (disconnect w) = None"
  by (simp add: disconnect_fields disconnect_released)

section \<open>The email draft\<close>

lemmas str_defs = js_def trim_def isSpace_def isWhiteSpace_def isLineTerminator_def
lemmas email_defs = emailDraftOf_def subjectMatch_def removeSubjectLine_def startsWithAsunto_def canon_def
   claimedDraft_def claimedSubject_def claimedBody_def templ_def demoTicket_def

lemma dropWhile_weaker:
  "(\<And>x. Q x \<Longrightarrow> P x) \<Longrightarrow> dropWhile P (dropWhile Q xs) = dropWhile P xs"
  by (induction xs) auto

lemma trim_dropWhile_isSpace: "trim (dropWhile isSpace s) = trim s"
  by (simp add: trim_def)

lemma trim_dropWhile_lf: "trim (dropWhile (\<lambda>c. c = 0x0A) s) = trim s"
  by (simp add: trim_def dropWhile_weaker isSpace_def isLineTerminator_def)

lemma canon_marker_length: "map canon marker = js ''ASUNTO:'' \<Longrightarrow> length marker = 7"
proof -
  assume "map canon marker = js ''ASUNTO:''"
  then have "length (map canon marker) = length (js ''ASUNTO:'')" by simp
  then show ?thesis by (simp add: js_def)
qed

lemma marker_found:
  assumes "map canon marker = js ''ASUNTO:''"
  shows "startsWithAsunto (marker @ rest)" and "drop 7 (marker @ rest) = rest"
  using assms canon_marker_length [OF assms] by (simp_all add: startsWithAsunto_def)

lemma lf_isLineTerminator: "isLineTerminator 0x0A"
  by (simp add: isLineTerminator_def)

lemma subjectMatch_line:
  assumes m: "map canon marker = js ''ASUNTO:''"
    and nolt: "\<forall>c \<in> set rest. \<not> isLineTerminator c"
    and nonblank: "\<exists>c \<in> set rest. \<not> isSpace c"
  shows "subjectMatch (marker @ rest @ 0x0A # after) = Some (dropWhile isSpace rest)"
proof -
  from nonblank have d: "dropWhile isSpace (rest @ 0x0A # after) = dropWhile isSpace rest @ 0x0A # after"
    by (auto simp add: dropWhile_append1)
  have "\<forall>c \<in> set (dropWhile isSpace rest). \<not> isLineTerminator c"
    using nolt set_dropWhileD by fastforce
  then have "takeWhile (\<lambda>c. \<not> isLineTerminator c) (dropWhile isSpace rest @ 0x0A # after)
      = dropWhile isSpace rest"
    by (simp add: takeWhile_append2 lf_isLineTerminator)
  with d show ?thesis
    by (simp add: subjectMatch_def marker_found [OF m] del: drop_append)
qed

lemma removeSubjectLine_line:
  assumes m: "map canon marker = js ''ASUNTO:''"
    and nolt: "\<forall>c \<in> set rest. \<not> isLineTerminator c"
  shows "removeSubjectLine (marker @ rest @ 0x0A # after) = dropWhile (\<lambda>c. c = 0x0A) after"
proof -
  from nolt have "dropWhile (\<lambda>c. \<not> isLineTerminator c) (rest @ 0x0A # after) = 0x0A # after"
    by (simp add: dropWhile_append2 lf_isLineTerminator)
  then show ?thesis
    by (simp add: removeSubjectLine_def marker_found [OF m] del: drop_append)
qed

lemma subjectMatch_Some:
  "startsWithAsunto text \<Longrightarrow> \<exists>m. subjectMatch text = Some m"
  by (simp add: subjectMatch_def)

text \<open>
  C5, as amended. Let the generated text begin with \<^verbatim>\<open>Asunto:\<close> in any letter case, and let
  the rest of that first line be ended by a line feed. Then the body of the draft is the text
  after that line, trimmed; and if the rest of the first line is not blank, the subject is
  the rest of that line, trimmed. If the text does not begin with \<^verbatim>\<open>Asunto:\<close> in any letter
  case, the subject is \<^verbatim>\<open>Ticket <ticketId> - Soporte <municipality>\<close> and the body is the full
  text. The example of the specification is the first half of the witness.
\<close>

theorem emailDraft_subject_body:
  "(map canon marker = js ''ASUNTO:'' \<and> (\<forall>c \<in> set rest. \<not> isLineTerminator c) \<longrightarrow>
      body (emailDraftOf uiTicket (marker @ rest @ 0x0A # after)) = trim after
      \<and> ((\<exists>c \<in> set rest. \<not> isSpace c) \<longrightarrow>
           subject (emailDraftOf uiTicket (marker @ rest @ 0x0A # after)) = trim rest))
   \<and> (\<not> startsWithAsunto text \<longrightarrow>
        emailDraftOf uiTicket text =
          \<lparr>subject = js ''Ticket '' @ templ (ticketId uiTicket) @ js '' - Soporte '' @ municipalidad uiTicket,
           body = text\<rparr>)"
proof (intro conjI impI)
  assume a: "map canon marker = js ''ASUNTO:'' \<and> (\<forall>c \<in> set rest. \<not> isLineTerminator c)"
  then have "startsWithAsunto (marker @ rest @ 0x0A # after)"
    by (simp add: marker_found)
  then obtain m where "subjectMatch (marker @ rest @ 0x0A # after) = Some m"
    using subjectMatch_Some by blast
  with a show "body (emailDraftOf uiTicket (marker @ rest @ 0x0A # after)) = trim after"
    by (simp add: emailDraftOf_def removeSubjectLine_line trim_dropWhile_lf)
next
  assume a: "map canon marker = js ''ASUNTO:'' \<and> (\<forall>c \<in> set rest. \<not> isLineTerminator c)"
    and b: "\<exists>c \<in> set rest. \<not> isSpace c"
  then show "subject (emailDraftOf uiTicket (marker @ rest @ 0x0A # after)) = trim rest"
    by (simp add: emailDraftOf_def subjectMatch_line trim_dropWhile_isSpace)
next
  assume "\<not> startsWithAsunto text"
  then show "emailDraftOf uiTicket text =
          \<lparr>subject = js ''Ticket '' @ templ (ticketId uiTicket) @ js '' - Soporte '' @ municipalidad uiTicket,
           body = text\<rparr>"
    by (simp add: emailDraftOf_def subjectMatch_def)
qed

theorem emailDraft_subject_body_witness:
  "emailDraftOf demoTicket (js ''Asunto: Falla en m'' @ [0xF3] @ js ''dulo'' @ [0x0A] @ js ''Estimado...'')
     = \<lparr>subject = js ''Falla en m'' @ [0xF3] @ js ''dulo'', body = js ''Estimado...''\<rparr>
   \<and> emailDraftOf demoTicket (js ''Estimado equipo'')
     = \<lparr>subject = js ''Ticket T-12345 - Soporte ExampleCity'', body = js ''Estimado equipo''\<rparr>"
  using emailDraft_subject_body [of "js ''Asunto:''" "js '' Falla en m'' @ [0xF3] @ js ''dulo''" demoTicket
      "js ''Estimado...''" "js ''Estimado equipo''"]
  by (simp add: str_defs email_defs)

text \<open>
  The claim as the specification words it fails on the code. The body is trimmed and is
  not the stripped text as it stands (first input); a marker line that no line feed ends is
  not stripped at all (second input); a blank marker line takes the subject from the next
  line (third input); and the marker is recognised in any letter case (fourth input).
\<close>

theorem emailDraft_claim_counterexample:
  "body (emailDraftOf demoTicket (js ''Asunto: X'' @ [0x0A] @ js '' Hola'')) = js ''Hola''
   \<and> body (claimedDraft demoTicket (js ''Asunto: X'' @ [0x0A] @ js '' Hola'')) = js '' Hola''
   \<and> body (emailDraftOf demoTicket (js ''Asunto: X'')) = js ''Asunto: X''
   \<and> body (claimedDraft demoTicket (js ''Asunto: X'')) = []
   \<and> subject (emailDraftOf demoTicket (js ''Asunto:'' @ [0x0A] @ js ''Hola'')) = js ''Hola''
   \<and> subject (claimedDraft demoTicket (js ''Asunto:'' @ [0x0A] @ js ''Hola'')) = []
   \<and> subject (emailDraftOf demoTicket (js ''ASUNTO: X'' @ [0x0A] @ js ''Hola'')) = js ''X''
   \<and> subject (claimedDraft demoTicket (js ''ASUNTO: X'' @ [0x0A] @ js ''Hola''))
        = js ''Ticket T-12345 - Soporte ExampleCity''"
  by (simp add: str_defs email_defs)

section \<open>Troubleshooting tips\<close>

lemma split_nl_nonempty: "split_nl s \<noteq> []"
  by (induction s) (auto split: list.splits)

lemma split_nl_line: "0x0A \<notin> set l \<Longrightarrow> split_nl l = [l]"
  by (induction l) auto

lemma split_nl_append: "0x0A \<notin> set l \<Longrightarrow> split_nl (l @ 0x0A # rest) = l # split_nl rest"
  by (induction l) auto

lemma split_nl_joinLines:
  "ls \<noteq> [] \<Longrightarrow> list_all (\<lambda>l. 0x0A \<notin> set l) ls \<Longrightarrow> split_nl (joinLines ls) = ls"
  by (induction ls rule: joinLines.induct) (simp_all add: split_nl_line split_nl_append)

lemma last_dropWhile: "dropWhile P xs \<noteq> [] \<Longrightarrow> last (dropWhile P xs) = last xs"
  by (induction xs) (auto split: if_splits)

lemma dropWhile_hd: "xs \<noteq> [] \<Longrightarrow> \<not> P (hd xs) \<Longrightarrow> dropWhile P xs = xs"
  by (cases xs) simp_all

lemma joinLines_Cons: "ls \<noteq> [] \<Longrightarrow> joinLines (l # ls) = l @ 0x0A # joinLines ls"
  by (cases ls) simp_all

lemma joinLines_split_nl:
  "joinLines (split_nl t) = t \<and> list_all (\<lambda>l. 0x0A \<notin> set l) (split_nl t)"
proof (induction t)
  case Nil
  then show ?case by simp
next
  case (Cons c cs)
  obtain l ls where s: "split_nl cs = l # ls"
    using split_nl_nonempty [of cs] by (cases "split_nl cs") simp_all
  show ?case
  proof (cases "c = 0x0A")
    case True
    with Cons show ?thesis by (simp add: joinLines_Cons split_nl_nonempty)
  next
    case False
    with Cons s show ?thesis by (cases ls) auto
  qed
qed

lemma trims_iff:
  "trims s c \<longleftrightarrow>
     (c = [] \<or> trimmed c)
     \<and> (\<exists>pre post. s = pre @ c @ post \<and> list_all isSpace pre \<and> list_all isSpace post)"
proof -
  have "list_ex (\<lambda>i. list_all isSpace (take i s) \<and> take (length c) (drop i s) = c
                      \<and> list_all isSpace (drop (i + length c) s)) [0..<Suc (length s)]
      \<longleftrightarrow> (\<exists>pre post. s = pre @ c @ post \<and> list_all isSpace pre \<and> list_all isSpace post)"
    (is "?L \<longleftrightarrow> ?R")
  proof
    assume ?L
    then obtain i where i: "list_all isSpace (take i s)" "take (length c) (drop i s) = c"
      "list_all isSpace (drop (i + length c) s)"
      unfolding list_ex_iff by blast
    have "s = take i s @ take (length c) (drop i s) @ drop (length c) (drop i s)"
      by (simp only: append_take_drop_id)
    also have "drop (length c) (drop i s) = drop (i + length c) s"
      by (simp add: add.commute)
    finally have "s = take i s @ c @ drop (i + length c) s"
      using i(2) by simp
    with i(1,3) show ?R by blast
  next
    assume ?R
    then obtain pre post where p: "s = pre @ c @ post" "list_all isSpace pre" "list_all isSpace post"
      by blast
    then have "length pre \<in> set [0..<Suc (length s)]" by simp
    moreover from p have "list_all isSpace (take (length pre) s)
        \<and> take (length c) (drop (length pre) s) = c
        \<and> list_all isSpace (drop (length pre + length c) s)"
      by simp
    ultimately show ?L unfolding list_ex_iff by blast
  qed
  then show ?thesis by (simp add: trims_def)
qed

lemma trimsI:
  "s = pre @ c @ post \<Longrightarrow> list_all isSpace pre \<Longrightarrow> list_all isSpace post
     \<Longrightarrow> c = [] \<or> trimmed c \<Longrightarrow> trims s c"
  unfolding trims_iff by blast

lemma dropWhile_all: "list_all P xs \<Longrightarrow> dropWhile P (xs @ ys) = dropWhile P ys"
  by (induction xs) simp_all

lemma trims_trim:
  assumes "trims s c"
  shows "trim s = c"
proof -
  from assms obtain pre post where p: "s = pre @ c @ post" "list_all isSpace pre"
      "list_all isSpace post" and c: "c = [] \<or> trimmed c"
    unfolding trims_iff by blast
  have post: "dropWhile isSpace (rev post @ ys) = dropWhile isSpace ys" for ys
    using p(3) by (intro dropWhile_all) (simp add: list_all_iff)
  from c show ?thesis
  proof
    assume e: "c = []"
    have "dropWhile isSpace post = []"
      using p(3) by (simp add: list_all_iff dropWhile_eq_Nil_conv)
    moreover have "dropWhile isSpace s = dropWhile isSpace post"
      unfolding p(1) e using p(2) by (simp add: dropWhile_all)
    ultimately have "dropWhile isSpace s = []" by (simp only:)
    then have "trim s = rev (dropWhile isSpace (rev []))" by (simp only: trim_def)
    then show ?thesis by (simp add: e)
  next
    assume t: "trimmed c"
    then have ne: "c \<noteq> []" and h: "\<not> isSpace (hd c)" and l: "\<not> isSpace (last c)"
      by (simp_all add: trimmed_def)
    from p have "dropWhile isSpace s = dropWhile isSpace (c @ post)"
      by (simp add: dropWhile_all)
    also from ne h have "\<dots> = c @ post" by (intro dropWhile_hd) simp_all
    finally have 1: "dropWhile isSpace s = c @ post" .
    have "dropWhile isSpace (rev (c @ post)) = dropWhile isSpace (rev c)"
      using post [of "rev c"] by simp
    also from ne l have "\<dots> = rev c" by (intro dropWhile_hd) (simp_all add: hd_rev)
    finally show ?thesis by (simp add: trim_def 1)
  qed
qed

lemma trim_trims: "trims s (trim s)"
proof -
  define a where "a = dropWhile isSpace s"
  define b where "b = dropWhile isSpace (rev a)"
  have t: "trim s = rev b" by (simp add: trim_def a_def b_def)
  have s: "s = takeWhile isSpace s @ a" by (simp add: a_def)
  have "rev a = takeWhile isSpace (rev a) @ b" by (simp add: b_def)
  then have "a = rev b @ rev (takeWhile isSpace (rev a))"
    by (metis rev_append rev_rev_ident)
  with s have "s = takeWhile isSpace s @ rev b @ rev (takeWhile isSpace (rev a))" by simp
  moreover have "list_all isSpace (takeWhile isSpace s)"
    by (simp add: list_all_iff) (meson set_takeWhileD)
  moreover have "list_all isSpace (rev (takeWhile isSpace (rev a)))"
    by (simp add: list_all_iff) (meson set_takeWhileD)
  moreover have "rev b = [] \<or> trimmed (rev b)"
  proof (cases "b = []")
    case True
    then show ?thesis by simp
  next
    case False
    then have ne: "a \<noteq> []" by (auto simp add: b_def)
    from False have "last b = last (rev a)" unfolding b_def by (rule last_dropWhile)
    with ne have "hd (rev b) = hd a" using False by (simp add: hd_rev last_rev)
    moreover from ne have "\<not> isSpace (hd a)" unfolding a_def by (rule hd_dropWhile)
    moreover from False have "\<not> isSpace (hd b)" unfolding b_def by (rule hd_dropWhile)
    then have "\<not> isSpace (last (rev b))" using False by (simp add: last_rev)
    ultimately show ?thesis using False by (simp add: trimmed_def)
  qed
  ultimately show ?thesis unfolding t by (rule trimsI)
qed

lemma trim_stripBullet: "trim (stripBullet l) = trim (unmarked l)"
  by (cases l) (simp_all add: stripBullet_def unmarked_def isBullet_def trim_dropWhile_isSpace)

lemma cleans_iff: "cleans l c \<longleftrightarrow> c = trim (stripBullet l)"
  using trims_trim [of "unmarked l" c] trim_trims [of "unmarked l"]
  by (auto simp add: cleans_def trim_stripBullet)

lemma cleans_map: "list_all2 cleans ls cs \<Longrightarrow> map (\<lambda>line. trim (stripBullet line)) ls = cs"
  by (induction rule: list_all2_induct) (simp_all add: cleans_iff)

lemma cleans_total: "list_all2 cleans ls (map (\<lambda>line. trim (stripBullet line)) ls)"
  by (induction ls) (simp_all add: cleans_iff)

lemma tipSteps_lines:
  assumes "ls \<noteq> []" "list_all (\<lambda>l. 0x0A \<notin> set l) ls" "list_all2 cleans ls cs"
  shows "tipSteps (joinLines ls) = take 3 (filter (\<lambda>c. c \<noteq> []) cs)"
  by (simp add: tipSteps_def split_nl_joinLines [OF assms(1,2)] cleans_map [OF assms(3)])

lemma cleansI:
  "unmarked l = pre @ c @ post \<Longrightarrow> list_all isSpace pre \<Longrightarrow> list_all isSpace post
     \<Longrightarrow> c = [] \<or> trimmed c \<Longrightarrow> cleans l c"
  unfolding cleans_def by (rule trimsI)

lemmas clean_defs = unmarked_def isBullet_def trimmed_def str_defs

lemma demo_cleans: "list_all2 cleans demoTipLines demoCleaned"
proof -
  have "cleans (js ''- Reiniciar el servicio.  '') (js ''Reiniciar el servicio.'')"
    by (rule cleansI [where pre = "[0x20]" and post = "[0x20, 0x20]"]) (simp_all add: clean_defs)
  moreover have "cleans [] []"
    by (rule cleansI [where pre = "[]" and post = "[]"]) (simp_all add: clean_defs)
  moreover have "cleans (js ''*   Verificar la red.'') (js ''Verificar la red.'')"
    by (rule cleansI [where pre = "[0x20, 0x20, 0x20]" and post = "[]"]) (simp_all add: clean_defs)
  moreover have "cleans [0x2D, 0x09] []"
    by (rule cleansI [where pre = "[0x09]" and post = "[]"]) (simp_all add: clean_defs)
  moreover have "cleans (js ''  Borrar el cache.'') (js ''Borrar el cache.'')"
    by (rule cleansI [where pre = "[0x20, 0x20]" and post = "[]"]) (simp_all add: clean_defs)
  moreover have "cleans (0x2022 # js '' Llamar a soporte.'') (js ''Llamar a soporte.'')"
    by (rule cleansI [where pre = "[0x20]" and post = "[]"]) (simp_all add: clean_defs)
  moreover have "cleans (js ''- Esperar.'') (js ''Esperar.'')"
    by (rule cleansI [where pre = "[0x20]" and post = "[]"]) (simp_all add: clean_defs)
  ultimately show ?thesis
    by (simp add: demoTipLines_def demoCleaned_def)
qed

lemma demo_lines: "demoTipLines \<noteq> []" "list_all (\<lambda>l. 0x0A \<notin> set l) demoTipLines"
  by (simp_all add: demoTipLines_def js_def)

lemma demo_steps:
  "take 3 (filter (\<lambda>c. c \<noteq> []) demoCleaned)
     = [js ''Reiniciar el servicio.'', js ''Verificar la red.'', js ''Borrar el cache.'']"
  by (simp add: demoCleaned_def js_def)


text \<open>
  C6. For every generated tip text: whenever the text is given by its lines and each line by
  its cleaned form (the leading bullet marker stripped, the white space trimmed), the steps are
  the first at most three cleaned lines that are not empty; every text has such lines, and a
  line has one cleaned form only. The solutions-ready event, carrying exactly these steps, is
  emitted if and only if there is at least one step (for a response without text there is
  none). In particular a text of bulleted lines (five, or any number) yields the contents of
  its first three lines that have a content.
\<close>

theorem tips_steps:
  "(ls \<noteq> [] \<and> list_all (\<lambda>l. 0x0A \<notin> set l) ls \<and> list_all2 cleans ls cs
      \<longrightarrow> tipSteps (joinLines ls) = take 3 (filter (\<lambda>c. c \<noteq> []) cs))
   \<and> (\<exists>ls' cs'. ls' \<noteq> [] \<and> list_all (\<lambda>l. 0x0A \<notin> set l) ls' \<and> joinLines ls' = text
         \<and> list_all2 cleans ls' cs')
   \<and> (cleans l c \<and> cleans l c' \<longrightarrow> c = c')
   \<and> length (tipSteps text) \<le> 3
   \<and> trace (generateTroubleshootingTips_resumed n system (GenResponse (Some text)) w) =
       trace w @ (if tipSteps text = [] then []
                  else [(Some n, SolutionsReady \<lparr>title = js ''Posibles Soluciones: '' @ templ system,
                                                  steps = tipSteps text\<rparr>)])
   \<and> trace (generateTroubleshootingTips_resumed n system (GenResponse None) w) = trace w"
proof (intro conjI impI)
  assume "ls \<noteq> [] \<and> list_all (\<lambda>l. 0x0A \<notin> set l) ls \<and> list_all2 cleans ls cs"
  then show "tipSteps (joinLines ls) = take 3 (filter (\<lambda>c. c \<noteq> []) cs)"
    by (simp add: tipSteps_lines)
next
  have "split_nl text \<noteq> []" by (rule split_nl_nonempty)
  with joinLines_split_nl [of "text"] cleans_total [of "split_nl text"]
  show "\<exists>ls' cs'. ls' \<noteq> [] \<and> list_all (\<lambda>l. 0x0A \<notin> set l) ls' \<and> joinLines ls' = text
         \<and> list_all2 cleans ls' cs'"
    by blast
next
  assume "cleans l c \<and> cleans l c'"
  then show "c = c'" by (simp add: cleans_iff)
next
  show "length (tipSteps text) \<le> 3"
    by (simp add: tipSteps_def)
  have "orEmpty (Some text) = text"
    by (simp add: orEmpty_def)
  then show "trace (generateTroubleshootingTips_resumed n system (GenResponse (Some text)) w) =
       trace w @ (if tipSteps text = [] then []
                  else [(Some n, SolutionsReady \<lparr>title = js ''Posibles Soluciones: '' @ templ system,
                                                  steps = tipSteps text\<rparr>)])"
    by (simp add: generateTroubleshootingTips_resumed_def emit_def Let_def)
  have "tipSteps [] = []"
    by (simp add: tipSteps_def stripBullet_def trim_def)
  then show "trace (generateTroubleshootingTips_resumed n system (GenResponse None) w) = trace w"
    by (simp add: generateTroubleshootingTips_resumed_def orEmpty_def)
qed

theorem tips_steps_witness:
  "demoTipLines \<noteq> [] \<and> list_all (\<lambda>l. 0x0A \<notin> set l) demoTipLines
   \<and> list_all2 cleans demoTipLines demoCleaned
   \<and> joinLines demoTipLines =
       js ''- Reiniciar el servicio.  '' @ [0x0A, 0x0A] @ js ''*   Verificar la red.''
         @ [0x0A, 0x2D, 0x09, 0x0A] @ js ''  Borrar el cache.'' @ [0x0A, 0x2022]
         @ js '' Llamar a soporte.'' @ [0x0A] @ js ''- Esperar.''
   \<and> tipSteps (joinLines demoTipLines)
       = [js ''Reiniciar el servicio.'', js ''Verificar la red.'', js ''Borrar el cache.'']"
proof -
  have "joinLines demoTipLines =
       js ''- Reiniciar el servicio.  '' @ [0x0A, 0x0A] @ js ''*   Verificar la red.''
         @ [0x0A, 0x2D, 0x09, 0x0A] @ js ''  Borrar el cache.'' @ [0x0A, 0x2022]
         @ js '' Llamar a soporte.'' @ [0x0A] @ js ''- Esperar.''"
    by (simp add: demoTipLines_def js_def)
  moreover from tips_steps [of demoTipLines demoCleaned "[]" "[]" "[]" "[]" 0 None freshManager]
    demo_lines demo_cleans
  have "tipSteps (joinLines demoTipLines) = take 3 (filter (\<lambda>c. c \<noteq> []) demoCleaned)"
    by blast
  ultimately show ?thesis
    using demo_lines demo_cleans by (simp only: demo_steps simp_thms)
qed

section \<open>The event loop: basic facts\<close>

lemma starts_append: "starts (tr @ tr') = starts tr @ starts tr'"
  by (induction tr) (simp_all split: action.splits)

lemma run_tasks_Nil: "run_tasks [] w = w"
  by (simp add: run_tasks_def)

lemma run_tasks_Cons: "run_tasks (ot # q) w = run_tasks q (run_task (fst ot) (snd ot) w)"
  by (simp add: run_tasks_def)

lemma run_tasks_append: "run_tasks (q @ q') w = run_tasks q' (run_tasks q w)"
  by (simp add: run_tasks_def)

lemma run_task_microtasks: "microtasks (run_task origin t w) = microtasks w"
  by (cases t)
    (simp_all add: run_task_def emit_def onmessage_resumed_def handleInterruption_def
      split: option.splits)

lemma run_task_queue_upd:
  "run_task origin t (w\<lparr>microtasks := q\<rparr>) = (run_task origin t w)\<lparr>microtasks := q\<rparr>"
  by (cases t)
    (simp_all add: run_task_def emit_def onmessage_resumed_def handleInterruption_def
      split: option.splits)

lemma run_tasks_microtasks: "microtasks (run_tasks q w) = microtasks w"
  by (induction q arbitrary: w) (simp_all add: run_tasks_Nil run_tasks_Cons run_task_microtasks)

lemma drain_Nil: "microtasks w = [] \<Longrightarrow> drain w = w"
  by (subst drain.simps) simp

lemma drain_Cons:
  "microtasks w = ot # rest \<Longrightarrow> drain w = drain (run_task (fst ot) (snd ot) (w\<lparr>microtasks := rest\<rparr>))"
  by (subst drain.simps) simp

lemma drain_run_tasks_aux:
  "microtasks w = q \<Longrightarrow> drain w = run_tasks q (w\<lparr>microtasks := []\<rparr>)"
proof (induction q arbitrary: w)
  case Nil
  then show ?case by (simp add: drain_Nil run_tasks_Nil)
next
  case (Cons ot rest)
  let ?w' = "run_task (fst ot) (snd ot) (w\<lparr>microtasks := rest\<rparr>)"
  have "microtasks ?w' = rest" by (simp add: run_task_microtasks)
  then have "drain ?w' = run_tasks rest (?w'\<lparr>microtasks := []\<rparr>)" by (rule Cons.IH)
  also have "?w'\<lparr>microtasks := []\<rparr> = run_task (fst ot) (snd ot) (w\<lparr>microtasks := []\<rparr>)"
    by (simp add: run_task_queue_upd)
  finally show ?case using Cons.prems by (simp add: drain_Cons run_tasks_Cons)
qed

lemma drain_run_tasks: "drain w = run_tasks (microtasks w) (w\<lparr>microtasks := []\<rparr>)"
  by (rule drain_run_tasks_aux) simp

lemma drain_microtasks: "microtasks (drain w) = []"
  by (simp add: drain_run_tasks run_tasks_microtasks)

lemma step_microtasks: "microtasks (step w ev) = []"
  by (simp add: step_def drain_microtasks)

lemma run_send_playback:
  assumes "isSend (origin, t)"
  shows "audioContext (run_task origin t w) = audioContext w"
    "nextStartTime (run_task origin t w) = nextStartTime w"
    "starts (trace (run_task origin t w)) = starts (trace w)"
  using assms
  by (cases t; simp add: isSend_def run_task_def emit_def starts_append)+

lemma run_sends_playback:
  assumes "list_all isSend q"
  shows "audioContext (run_tasks q w) = audioContext w"
    "nextStartTime (run_tasks q w) = nextStartTime w"
    "starts (trace (run_tasks q w)) = starts (trace w)"
  using assms
  by (induction q arbitrary: w; simp add: run_tasks_Nil run_tasks_Cons run_send_playback)+

lemma handle_call_playback:
  "audioContext (handle_call env i fc w) = audioContext w"
  "nextStartTime (handle_call env i fc w) = nextStartTime w"
  "starts (trace (handle_call env i fc w)) = starts (trace w)"
  "list_all isSend (microtasks w) \<Longrightarrow> list_all isSend (microtasks (handle_call env i fc w))"
  by (simp_all add: handle_call_def generateTroubleshootingTips_def generateEmailDraft_def
      emit_def enqueue_def Let_def starts_append isSend_def)

lemma handle_calls_playback:
  "audioContext (handle_calls env i fcs w) = audioContext w"
  "nextStartTime (handle_calls env i fcs w) = nextStartTime w"
  "starts (trace (handle_calls env i fcs w)) = starts (trace w)"
  "list_all isSend (microtasks w) \<Longrightarrow> list_all isSend (microtasks (handle_calls env i fcs w))"
  by (induction fcs arbitrary: i w; simp add: handle_call_playback)+

lemma handleInterruption_playback:
  "audioContext (handleInterruption intr clock w) = audioContext w"
  "trace (handleInterruption intr clock w) = trace w"
  "microtasks (handleInterruption intr clock w) = microtasks w"
  "nextStartTime (handleInterruption intr clock w) =
     (if intr then (case audioContext w of None \<Rightarrow> 0 | Some ctx \<Rightarrow> clock) else nextStartTime w)"
  by (simp_all add: handleInterruption_def)

lemma onmessage_resumed_playback:
  assumes "audioContext w \<noteq> None"
  shows "audioContext (onmessage_resumed d intr clock w) = audioContext w"
    "starts (trace (onmessage_resumed d intr clock w)) = starts (trace w) @ [(nextStartTime w, d)]"
    "nextStartTime (onmessage_resumed d intr clock w) =
       (if intr then clock else round64 (nextStartTime w + d))"
  using assms
  by (auto simp add: onmessage_resumed_def handleInterruption_def emit_def starts_append)

lemma after_calls_playback:
  fixes msg env w
  defines "w1 \<equiv> (case toolCall msg of None \<Rightarrow> w | Some fcs \<Rightarrow> handle_calls env 0 fcs w)"
  assumes "microtasks w = []"
  shows "audioContext w1 = audioContext w" "nextStartTime w1 = nextStartTime w"
    "starts (trace w1) = starts (trace w)" "list_all isSend (microtasks w1)"
  using assms by (simp_all add: handle_calls_playback split: option.splits)

lemma step_message_playback:
  assumes q: "microtasks w = []"
  shows "audioContext (step w (Message msg env)) = audioContext w" (is ?A)
    and "starts (trace (step w (Message msg env))) =
       starts (trace w) @
         (if hasAudio msg \<and> audioContext w \<noteq> None
          then [(max (nextStartTime w) (clockAtStart env), bufferDuration env)] else [])" (is ?B)
    and "nextStartTime (step w (Message msg env)) =
       (if interrupted msg then (case audioContext w of None \<Rightarrow> 0 | Some ctx \<Rightarrow> clockAtInterrupt env)
        else if hasAudio msg \<and> audioContext w \<noteq> None
        then round64 (max (nextStartTime w) (clockAtStart env) + bufferDuration env)
        else nextStartTime w)" (is ?C)
proof -
  define w1 where "w1 = (case toolCall msg of None \<Rightarrow> w | Some fcs \<Rightarrow> handle_calls env 0 fcs w)"
  note p = after_calls_playback [where msg = msg and env = env and w = w, OF q, folded w1_def]
  define m where "m = max (nextStartTime w) (clockAtStart env)"
  have "?A \<and> ?B \<and> ?C"
  proof (cases "hasAudio msg \<and> audioContext w \<noteq> None")
    case True
    define v where "v = run_tasks (microtasks w1) (w1\<lparr>nextStartTime := m, microtasks := []\<rparr>)"
    have st: "step w (Message msg env) =
        onmessage_resumed (bufferDuration env) (interrupted msg) (clockAtInterrupt env) v"
      using True p(1,2)
      by (simp add: step_def onmessage_def w1_def [symmetric] hasAudio_def [symmetric] Let_def
          drain_run_tasks enqueue_def run_tasks_append run_tasks_Cons run_tasks_Nil run_task_def
          v_def m_def)
    have v: "audioContext v = audioContext w" "nextStartTime v = m" "starts (trace v) = starts (trace w)"
      using p by (simp_all add: v_def run_sends_playback)
    from True v have ctx: "audioContext v \<noteq> None" by simp
    have ?A
      by (simp add: st onmessage_resumed_playback [OF ctx] v)
    moreover have ?B
      using True by (simp add: st onmessage_resumed_playback [OF ctx] v m_def)
    moreover have ?C
      using True by (auto simp add: st onmessage_resumed_playback [OF ctx] v m_def)
    ultimately show ?thesis by blast
  next
    case False
    define u where "u = handleInterruption (interrupted msg) (clockAtInterrupt env) w1"
    have st: "step w (Message msg env) = run_tasks (microtasks w1) (u\<lparr>microtasks := []\<rparr>)"
      using False p(1)
      by (auto simp add: step_def onmessage_def w1_def [symmetric] hasAudio_def [symmetric] Let_def
          drain_run_tasks u_def handleInterruption_playback)
    have ?A
      using p by (simp add: st run_sends_playback u_def handleInterruption_playback)
    moreover have ?B
      using p False by (auto simp add: st run_sends_playback u_def handleInterruption_playback)
    moreover have ?C
      using p False by (auto simp add: st run_sends_playback u_def handleInterruption_playback)
    ultimately show ?thesis by blast
  qed
  then show ?A and ?B and ?C by blast+
qed

lemmas loop_defs = step_def onmessage_def onmessage_resumed_def handleInterruption_def
  handle_call_def generateTroubleshootingTips_def generateEmailDraft_def
  generateTroubleshootingTips_resumed_def generateEmailDraft_resumed_def resolve_def
  disconnect_def run_cleanup_def onclose_def onerror_def enqueue_def emit_def
  drain_run_tasks run_tasks_def run_task_def Let_def

lemmas demo_defs = connectedManager_def freshManager_def audioMsg_def interruptionMsg_def demoEnv_def

section \<open>Interruption\<close>

text \<open>
  C2, as amended. For every state between two tasks, processing a message that carries the
  interruption signal sets the cursor to the current clock time when the audio context exists,
  which is at most any cursor value that lies in the future of that time; when the audio
  context has been released, it sets the cursor to zero. No segment is stopped: the playback
  scheduled so far stays as it is (a segment that the same message carries is still
  scheduled), and a message that carries only the signal changes nothing but the cursor.
\<close>

theorem interruption_resets_cursor:
  assumes "microtasks w = []" and "interrupted msg"
  shows "nextStartTime (step w (Message msg env)) =
       (case audioContext w of None \<Rightarrow> 0 | Some ctx \<Rightarrow> clockAtInterrupt env)
     \<and> (audioContext w \<noteq> None \<longrightarrow>
          (\<forall>v. clockAtInterrupt env \<le> v \<longrightarrow> nextStartTime (step w (Message msg env)) \<le> v))
     \<and> starts (trace (step w (Message msg env))) =
         starts (trace w) @
           (if hasAudio msg \<and> audioContext w \<noteq> None
            then [(max (nextStartTime w) (clockAtStart env), bufferDuration env)] else [])
     \<and> (toolCall msg = None \<and> audioData msg = None \<longrightarrow>
          step w (Message msg env) =
            w\<lparr>nextStartTime := (case audioContext w of None \<Rightarrow> 0 | Some ctx \<Rightarrow> clockAtInterrupt env)\<rparr>)"
proof (intro conjI impI allI)
  note p = step_message_playback [OF assms(1), of msg env]
  show c: "nextStartTime (step w (Message msg env)) =
       (case audioContext w of None \<Rightarrow> 0 | Some ctx \<Rightarrow> clockAtInterrupt env)"
    using assms(2) by (simp add: p(3))
  show "starts (trace (step w (Message msg env))) =
         starts (trace w) @
           (if hasAudio msg \<and> audioContext w \<noteq> None
            then [(max (nextStartTime w) (clockAtStart env), bufferDuration env)] else [])"
    by (rule p(2))
  show "nextStartTime (step w (Message msg env)) \<le> v"
    if "audioContext w \<noteq> None" "clockAtInterrupt env \<le> v" for v
    using that c by auto
  show "step w (Message msg env) =
      w\<lparr>nextStartTime := (case audioContext w of None \<Rightarrow> 0 | Some ctx \<Rightarrow> clockAtInterrupt env)\<rparr>"
    if "toolCall msg = None \<and> audioData msg = None"
    using that assms
    by (simp add: step_def onmessage_def handleInterruption_def drain_Nil)
qed

theorem interruption_resets_cursor_witness:
  "microtasks (connectedManager\<lparr>nextStartTime := 5\<rparr>) = [] \<and> interrupted interruptionMsg
   \<and> step (connectedManager\<lparr>nextStartTime := 5\<rparr>) (Message interruptionMsg demoEnv)
       = connectedManager\<lparr>nextStartTime := 3\<rparr>"
  using interruption_resets_cursor [of "connectedManager\<lparr>nextStartTime := 5\<rparr>" interruptionMsg demoEnv]
  by (simp add: connectedManager_def freshManager_def interruptionMsg_def demoEnv_def)

text \<open>
  The claim as the specification words it (the clock time, never zero, in every state) fails
  in a state without audio context: after a segment was scheduled and \<open>disconnect\<close> was called,
  a late interruption at clock time 3 sets the cursor to 0.
\<close>

theorem interruption_zero_counterexample:
  "clockAtInterrupt demoEnv = 3
   \<and> nextStartTime (step connectedManager (Message audioMsg demoEnv)) = 3
   \<and> audioContext (step (step connectedManager (Message audioMsg demoEnv)) DisconnectCall) = None
   \<and> nextStartTime (step (step (step connectedManager (Message audioMsg demoEnv)) DisconnectCall)
        (Message interruptionMsg demoEnv)) = 0"
proof -
  have 1: "step connectedManager (Message audioMsg demoEnv) =
      connectedManager\<lparr>nextStartTime := 3, trace := [(None, SourceStart 2 1)]\<rparr>"
    by (simp add: loop_defs demo_defs js_def round64_numeral)
  have 2: "step (connectedManager\<lparr>nextStartTime := 3, trace := [(None, SourceStart 2 1)]\<rparr>) DisconnectCall =
      freshManager\<lparr>nextStartTime := 3,
        trace := [(None, SourceStart 2 1), (None, ProcessorDisconnect 3), (None, InputSourceDisconnect 2),
                  (None, StopTracks 1), (None, AudioContextClose 0), (None, SessionClose 0)]\<rparr>"
    by (simp add: loop_defs demo_defs)
  have 3: "nextStartTime (step (freshManager\<lparr>nextStartTime := 3,
        trace := [(None, SourceStart 2 1), (None, ProcessorDisconnect 3), (None, InputSourceDisconnect 2),
                  (None, StopTracks 1), (None, AudioContextClose 0), (None, SessionClose 0)]\<rparr>)
        (Message interruptionMsg demoEnv)) = 0"
    by (simp add: loop_defs demo_defs)
  show ?thesis
    unfolding 1 2 3 by (simp add: demo_defs)
qed

section \<open>Playback scheduling\<close>

lemma run_Nil: "run w [] = w"
  by (simp add: run_def)

lemma run_Cons: "run w (ev # evs) = run (step w ev) evs"
  by (simp add: run_def)

lemma resolve_playback:
  "audioContext (resolve n g w) = audioContext w"
  "nextStartTime (resolve n g w) = nextStartTime w"
  "starts (trace (resolve n g w)) = starts (trace w)"
  "list_all isSend (microtasks w) \<Longrightarrow> list_all isSend (microtasks (resolve n g w))"
  by (simp_all add: resolve_def generateTroubleshootingTips_resumed_def
      generateEmailDraft_resumed_def emit_def enqueue_def Let_def starts_append isSend_def
      split: option.splits cont.splits gen_result.splits)

lemma step_generated_playback:
  assumes "microtasks w = []"
  shows "audioContext (step w (Generated n g)) = audioContext w"
    and "nextStartTime (step w (Generated n g)) = nextStartTime w"
    and "starts (trace (step w (Generated n g))) = starts (trace w)"
proof -
  from assms have q: "list_all isSend (microtasks (resolve n g w))"
    by (intro resolve_playback) simp
  have st: "step w (Generated n g) =
      run_tasks (microtasks (resolve n g w)) ((resolve n g w)\<lparr>microtasks := []\<rparr>)"
    by (simp add: step_def drain_run_tasks)
  show "audioContext (step w (Generated n g)) = audioContext w"
    and "nextStartTime (step w (Generated n g)) = nextStartTime w"
    and "starts (trace (step w (Generated n g))) = starts (trace w)"
    unfolding st by (simp_all add: run_sends_playback [OF q] resolve_playback)
qed

lemma arrivals_Nil: "arrivals [] = []"
  by (simp add: arrivals_def)

lemma arrivals_Cons: "arrivals (ev # evs) = arrival ev @ arrivals evs"
  by (simp add: arrivals_def)

lemma run_playing:
  assumes "microtasks w = []" "audioContext w \<noteq> None" "list_all keepsPlaying evs"
  shows "starts (trace (run w evs)) = starts (trace w) @ schedule (nextStartTime w) (arrivals evs)
         \<and> nextStartTime (run w evs) = cursorAfter (nextStartTime w) (arrivals evs)"
  using assms
proof (induction evs arbitrary: w)
  case Nil
  then show ?case by (simp add: run_Nil arrivals_Nil)
next
  case (Cons ev evs)
  from Cons.prems(3) have ev: "keepsPlaying ev" and evs: "list_all keepsPlaying evs"
    by simp_all
  have 1: "microtasks (step w ev) = []" by (rule step_microtasks)
  show ?case
  proof (cases ev)
    case (Message msg env)
    note p = step_message_playback [OF Cons.prems(1), of msg env]
    from ev Message have ni: "\<not> interrupted msg" by (simp add: keepsPlaying_def)
    have 2: "audioContext (step w ev) \<noteq> None"
      using Cons.prems(2) by (simp add: Message p(1))
    from Cons.IH [OF 1 2 evs] ni Cons.prems(2) show ?thesis
      by (simp add: run_Cons arrivals_Cons arrival_def Message p)
  next
    case (Generated n g)
    note p = step_generated_playback [OF Cons.prems(1), of n g]
    have 2: "audioContext (step w ev) \<noteq> None"
      using Cons.prems(2) by (simp add: Generated p(1))
    from Cons.IH [OF 1 2 evs] show ?thesis
      by (simp add: run_Cons arrivals_Cons arrival_def Generated p)
  next
    case DisconnectCall
    with ev show ?thesis by (simp add: keepsPlaying_def)
  next
    case SessionClosed
    with ev show ?thesis by (simp add: keepsPlaying_def)
  next
    case SessionError
    with ev show ?thesis by (simp add: keepsPlaying_def)
  qed
qed

lemma seamless_schedule: "seamless (schedule c tds)"
proof (induction tds arbitrary: c)
  case Nil
  then show ?case by simp
next
  case (Cons td tds)
  show ?case
  proof (cases tds)
    case Nil
    then show ?thesis by simp
  next
    case (Cons td' tds')
    with Cons.IH [of "round64 (max c (fst td) + snd td)"] show ?thesis by simp
  qed
qed

lemma isDouble_round64: "isDouble (round64 x)"
  by (simp add: isDouble_def round64_idem)

lemma isDouble_max: "isDouble x \<Longrightarrow> isDouble y \<Longrightarrow> isDouble (max x y)"
  by (simp add: max_def)

lemma advance_ge:
  assumes "isDouble c" "isDouble t" "0 \<le> d"
  shows "c \<le> round64 (max c t + d)"
proof -
  from assms(1,2) have "round64 (max c t) = max c t"
    using isDouble_max [of c t] by (simp add: isDouble_def)
  moreover from assms(3) have "round64 (max c t) \<le> round64 (max c t + d)"
    by (intro round64_mono) simp
  ultimately show ?thesis by simp
qed

lemma schedule_ge:
  assumes "isDouble c" "list_all (\<lambda>td. isDouble (fst td) \<and> 0 \<le> snd td) tds"
    "sd \<in> set (schedule c tds)"
  shows "c \<le> fst sd"
  using assms
proof (induction tds arbitrary: c)
  case Nil
  then show ?case by simp
next
  case (Cons td tds)
  let ?c' = "round64 (max c (fst td) + snd td)"
  from Cons.prems(2) have td: "isDouble (fst td)" "0 \<le> snd td"
    and tds: "list_all (\<lambda>td. isDouble (fst td) \<and> 0 \<le> snd td) tds" by simp_all
  from Cons.prems(3) consider "sd = (max c (fst td), snd td)" | "sd \<in> set (schedule ?c' tds)"
    by auto
  then show ?case
  proof cases
    case 1
    then show ?thesis by simp
  next
    case 2
    from Cons.IH [OF isDouble_round64 tds 2] have "?c' \<le> fst sd" .
    with advance_ge [OF Cons.prems(1) td] show ?thesis by linarith
  qed
qed

lemma sorted_schedule:
  assumes "isDouble c" "list_all (\<lambda>td. isDouble (fst td) \<and> 0 \<le> snd td) tds"
  shows "sorted (map fst (schedule c tds))"
  using assms
proof (induction tds arbitrary: c)
  case Nil
  then show ?case by simp
next
  case (Cons td tds)
  let ?c' = "round64 (max c (fst td) + snd td)"
  from Cons.prems(2) have td: "isDouble (fst td)" "0 \<le> snd td"
    and tds: "list_all (\<lambda>td. isDouble (fst td) \<and> 0 \<le> snd td) tds" by simp_all
  have "max c (fst td) \<le> fst sd" if "sd \<in> set (schedule ?c' tds)" for sd
  proof -
    from schedule_ge [OF isDouble_round64 tds that] have "?c' \<le> fst sd" .
    moreover have "max c (fst td) \<le> ?c'"
      using advance_ge [OF isDouble_max [OF Cons.prems(1) td(1)] isDouble_max [OF Cons.prems(1) td(1)] td(2)]
      by simp
    ultimately show ?thesis by linarith
  qed
  with Cons.IH [OF isDouble_round64 tds] show ?case by auto
qed

lemma tenth_sum: "round64 (tenth + sevenTenths) = roundedSum"
  using round64_nearest [of "- 1" "tenth + sevenTenths" 7205759403792793]
  by (simp add: tenth_def sevenTenths_def roundedSum_def)

lemma tenth_order:
  "max 0 tenth = tenth" "max roundedSum (1 / 2) = roundedSum" "tenth \<le> roundedSum"
  "0 \<le> sevenTenths"
  by (simp_all add: tenth_def roundedSum_def sevenTenths_def)

lemma tenth_doubles: "isDouble 0" "isDouble tenth" "isDouble (1 / 2)"
  using round64_dyadic [of 3602879701896397 "- 55"] round64_dyadic [of 1 "- 1"]
  by (simp_all add: isDouble_def tenth_def)

lemma segments_playing:
  "microtasks connectedManager = []" "audioContext connectedManager \<noteq> None"
  "nextStartTime connectedManager = 0" "starts (trace connectedManager) = []"
  "keepsPlaying firstSegment" "keepsPlaying secondSegment"
  "keepsPlaying (Message (toolMsg demoAnalyze) demoEnv)" "keepsPlaying (Generated 0 GenFailed)"
  "arrival firstSegment = [(tenth, sevenTenths)]" "arrival secondSegment = [(1 / 2, 1)]"
  "arrival (Message (toolMsg demoAnalyze) demoEnv) = []" "arrival (Generated 0 GenFailed) = []"
  by (simp_all add: connectedManager_def freshManager_def keepsPlaying_def arrival_def
      firstSegment_def secondSegment_def toolMsg_def hasAudio_def js_def)

text \<open>
  C1, as amended. For every run of messages without interruption signal and of generation
  results, handled one after the other by a manager that holds its audio context: the audio
  segments among them are scheduled as \<open>schedule\<close> says, each at the maximum of the cursor and
  the clock at its processing, the cursor then being the sum, as Numbers, of that start and the
  duration; so each start is at least the sum, as Numbers, of the previous start and the
  previous duration, and, the clock times being Numbers and the durations not negative, the
  starts do not decrease.
\<close>

theorem playback_schedule:
  assumes "microtasks w = []" and "audioContext w \<noteq> None" and "list_all keepsPlaying evs"
  shows "\<exists>sch. starts (trace (run w evs)) = starts (trace w) @ sch
     \<and> sch = schedule (nextStartTime w) (arrivals evs)
     \<and> nextStartTime (run w evs) = cursorAfter (nextStartTime w) (arrivals evs)
     \<and> seamless sch
     \<and> (isDouble (nextStartTime w)
          \<and> list_all (\<lambda>td. isDouble (fst td) \<and> 0 \<le> snd td) (arrivals evs)
        \<longrightarrow> sorted (map fst sch))"
  using run_playing [OF assms] seamless_schedule sorted_schedule by blast

theorem playback_schedule_witness:
  "microtasks connectedManager = [] \<and> audioContext connectedManager \<noteq> None
   \<and> list_all keepsPlaying
        [firstSegment, Message (toolMsg demoAnalyze) demoEnv, Generated 0 GenFailed, secondSegment]
   \<and> isDouble (nextStartTime connectedManager)
   \<and> list_all (\<lambda>td. isDouble (fst td) \<and> 0 \<le> snd td)
         (arrivals [firstSegment, Message (toolMsg demoAnalyze) demoEnv, Generated 0 GenFailed,
                    secondSegment])
   \<and> starts (trace (run connectedManager
        [firstSegment, Message (toolMsg demoAnalyze) demoEnv, Generated 0 GenFailed, secondSegment]))
      = [(tenth, sevenTenths), (roundedSum, 1)]
   \<and> roundedSum = round64 (tenth + sevenTenths)
   \<and> sorted [tenth, roundedSum]"
  using playback_schedule [of connectedManager
      "[firstSegment, Message (toolMsg demoAnalyze) demoEnv, Generated 0 GenFailed, secondSegment]"]
    tenth_doubles
  by (simp add: segments_playing arrivals_def tenth_order tenth_sum)

text \<open>
  The claim as the specification words it (each start at least the previous start plus the
  previous duration) fails where the sum of Numbers is rounded down: after a segment of
  duration 0.7 that starts at clock time 0.1, the next segment, processed at clock time 0.5,
  starts at 0.7999999999999999, below the exact sum.
\<close>

theorem playback_rounding_counterexample:
  "starts (trace (run connectedManager [firstSegment, secondSegment]))
      = [(tenth, sevenTenths), (roundedSum, 1)]
   \<and> roundedSum < tenth + sevenTenths
   \<and> \<not> gapless (starts (trace (run connectedManager [firstSegment, secondSegment])))"
proof -
  have lt: "roundedSum < tenth + sevenTenths"
    by (simp add: roundedSum_def tenth_def sevenTenths_def)
  have "list_all keepsPlaying [firstSegment, secondSegment]"
    by (simp add: segments_playing)
  from run_playing [OF segments_playing(1,2) this]
  have "starts (trace (run connectedManager [firstSegment, secondSegment]))
      = [(tenth, sevenTenths), (roundedSum, 1)]"
    by (simp add: segments_playing arrivals_def tenth_order tenth_sum)
  with lt show ?thesis by simp
qed

section \<open>Tool invocations: every reachable state is consistent\<close>

lemmas proj_defs = history_def queued_def waiting_def

lemma handle_call_analyze:
  assumes "fc_name fc = js ''analyzeProblem''"
  shows "handle_call env i fc w =
     w\<lparr>nextInv := Suc (nextInv w),
       trace := trace w @ [(Some (nextInv w), ConsoleLog),
                           (Some (nextInv w), GenerateContent (TipsPrompt (fc_args fc ''sistema'')
                               (fc_args fc ''problemDescription'')))],
       microtasks := microtasks w @ [(Some (nextInv w), SendTask (fc_id fc) (fc_name fc) analyzeResult)],
       awaiting := awaiting w @ [(nextInv w, TipsCont (fc_args fc ''sistema''))]\<rparr>"
  using assms
  by (simp add: handle_call_def generateTroubleshootingTips_def emit_def enqueue_def Let_def
      analyzeResult_def)

lemma handle_call_other:
  assumes "fc_name fc \<noteq> js ''analyzeProblem''" "fc_name fc \<noteq> js ''registerSupportTicket''"
  shows "handle_call env i fc w = w"
  using assms by (simp add: handle_call_def)

lemma inPhase_frame:
  assumes "history n w' = history n w" "queued n w' = queued n w" "waiting n w' = waiting n w"
  shows "inPhase n w' ph = inPhase n w ph"
  using assms by (simp add: inPhase_def)

lemma consistent_frame:
  assumes "consistent w" "\<And>n. history n w' = history n w" "\<And>n. queued n w' = queued n w"
    "\<And>n. waiting n w' = waiting n w" "nextInv w' = nextInv w"
  shows "consistent w'"
  using assms by (simp add: consistent_def inPhase_def)

lemma consistent_fresh:
  assumes "trace w = []" "microtasks w = []" "awaiting w = []"
  shows "consistent w"
proof -
  from assms have "inPhase n w Unused" for n
    by (simp add: inPhase_def proj_defs)
  then show ?thesis
    unfolding consistent_def by blast
qed

lemma consistent_handle_call:
  assumes c: "consistent w"
  shows "consistent (handle_call env i fc w)"
proof -
  define k where "k = nextInv w"
  from c have fresh: "inPhase n w Unused" if "k \<le> n" for n
    using that by (simp add: consistent_def k_def)
  from c have ex: "\<exists>ph. inPhase n w ph" for n
    by (simp add: consistent_def)
  consider (analyze) "fc_name fc = js ''analyzeProblem''"
    | (register) "fc_name fc = js ''registerSupportTicket''"
    | (other) "fc_name fc \<noteq> js ''analyzeProblem''" "fc_name fc \<noteq> js ''registerSupportTicket''"
    by blast
  then show ?thesis
  proof cases
    case analyze
    define w' where "w' = handle_call env i fc w"
    note eq = handle_call_analyze [OF analyze, of env i w, folded w'_def k_def]
    have other: "inPhase n w' ph = inPhase n w ph" if "n \<noteq> k" for n ph
      using that by (intro inPhase_frame) (simp_all add: eq proj_defs)
    have new: "inPhase k w'
        (AnalyzeQueued (fc_args fc ''sistema'') (fc_args fc ''problemDescription'') (fc_id fc) (fc_name fc))"
      using fresh [of k] by (simp add: eq inPhase_def proj_defs)
    have "\<exists>ph. inPhase n w' ph" for n
      using new ex [of n] other [of n] by (cases "n = k") blast+
    moreover have "inPhase n w' Unused" if "nextInv w' \<le> n" for n
    proof -
      from that have "Suc k \<le> n" by (simp add: eq)
      then show ?thesis using other [of n Unused] fresh [of n] by simp
    qed
    ultimately show ?thesis
      unfolding consistent_def w'_def by blast
  next
    case register
    define w' where "w' = handle_call env i fc w"
    define t where "t = \<lparr>correo = orEmpty (fc_args fc ''correo''),
                municipalidad = orEmpty (fc_args fc ''municipalidad''),
                sistema = orEmpty (fc_args fc ''sistema''),
                descripcion = orEmpty (fc_args fc ''descripcion''),
                timestamp = isoNow env i,
                ticketId = Some (newTicketId (mathRandom env i))\<rparr>"
    have tid: "ticketId t \<noteq> None" by (simp add: t_def)
    note eq = handle_call_register [OF register, of env i w, unfolded Let_def, folded t_def,
        folded w'_def k_def]
    have other: "inPhase n w' ph = inPhase n w ph" if "n \<noteq> k" for n ph
      using that by (intro inPhase_frame) (simp_all add: eq proj_defs)
    have new: "inPhase k w' (RegisterPending t (fc_id fc) (fc_name fc))"
      using fresh [of k] tid by (simp add: eq inPhase_def proj_defs)
    have "\<exists>ph. inPhase n w' ph" for n
      using new ex [of n] other [of n] by (cases "n = k") blast+
    moreover have "inPhase n w' Unused" if "nextInv w' \<le> n" for n
    proof -
      from that have "Suc k \<le> n" by (simp add: eq)
      then show ?thesis using other [of n Unused] fresh [of n] by simp
    qed
    ultimately show ?thesis
      unfolding consistent_def w'_def by blast
  next
    case other
    with c show ?thesis by (simp add: handle_call_other)
  qed
qed

lemma consistent_handle_calls:
  "consistent w \<Longrightarrow> consistent (handle_calls env i fcs w)"
  by (induction fcs arbitrary: i w) (simp_all add: consistent_handle_call)

lemma run_task_other_fields:
  "awaiting (run_task origin t w) = awaiting w" "nextInv (run_task origin t w) = nextInv w"
  by (cases t; simp add: run_task_def emit_def onmessage_resumed_def handleInterruption_def
      split: option.splits)+

lemma run_task_None_history: "history n (run_task None t w) = history n w"
  by (cases t)
    (simp_all add: run_task_def emit_def onmessage_resumed_def handleInterruption_def history_def
      split: option.splits)

lemma queue_of_send:
  assumes "queue_of ph = t # q"
  shows "q = [] \<and>
    ((\<exists>s d i nm. ph = AnalyzeQueued s d i nm \<and> t = SendTask i nm analyzeResult)
     \<or> (\<exists>u i nm g. ph = RegisterSettled u i nm g \<and> t = SendTask i nm (draftResult u g)))"
  using assms by (cases ph) simp_all

lemma consistent_run_task:
  assumes c: "consistent w" and q: "microtasks w = (origin, t) # rest"
  shows "consistent (run_task origin t (w\<lparr>microtasks := rest\<rparr>))"
proof (cases origin)
  case None
  show ?thesis
  proof (rule consistent_frame [OF c])
    show "history n (run_task origin t (w\<lparr>microtasks := rest\<rparr>)) = history n w" for n
      by (simp add: None run_task_None_history) (simp add: history_def)
    show "queued n (run_task origin t (w\<lparr>microtasks := rest\<rparr>)) = queued n w" for n
      by (simp add: queued_def run_task_microtasks q None)
    show "waiting n (run_task origin t (w\<lparr>microtasks := rest\<rparr>)) = waiting n w" for n
      by (simp add: waiting_def run_task_other_fields)
    show "nextInv (run_task origin t (w\<lparr>microtasks := rest\<rparr>)) = nextInv w"
      by (simp add: run_task_other_fields)
  qed
next
  case (Some k)
  define w' where "w' = run_task origin t (w\<lparr>microtasks := rest\<rparr>)"
  from c obtain ph where ph: "inPhase k w ph"
    unfolding consistent_def by blast
  have qk: "queued k w = t # queued k (w\<lparr>microtasks := rest\<rparr>)"
    by (simp add: queued_def q Some)
  with ph have "queue_of ph = t # queued k (w\<lparr>microtasks := rest\<rparr>)"
    by (simp add: inPhase_def)
  from queue_of_send [OF this] have rest_k: "queued k (w\<lparr>microtasks := rest\<rparr>) = []"
    and shape: "(\<exists>s d i nm. ph = AnalyzeQueued s d i nm \<and> t = SendTask i nm analyzeResult)
     \<or> (\<exists>u i nm g. ph = RegisterSettled u i nm g \<and> t = SendTask i nm (draftResult u g))"
    by blast+
  from shape obtain i nm r where t: "t = SendTask i nm r" by blast
  have eq: "w' = w\<lparr>microtasks := rest, trace := trace w @ [(Some k, ToolResponse i nm r)]\<rparr>"
    by (simp add: w'_def t Some run_task_def emit_def)
  have other: "inPhase n w' ph' = inPhase n w ph'" if "n \<noteq> k" for n ph'
    using that by (intro inPhase_frame) (simp_all add: eq proj_defs q Some)
  have new: "\<exists>ph'. inPhase k w' ph'"
  proof -
    from shape consider (a) s d i' nm' where "ph = AnalyzeQueued s d i' nm'" "t = SendTask i' nm' analyzeResult"
      | (r) u i' nm' g where "ph = RegisterSettled u i' nm' g" "t = SendTask i' nm' (draftResult u g)"
      by blast
    then show ?thesis
    proof cases
      case a
      with ph t rest_k have "inPhase k w' (AnalyzeAnswered s d i' nm')"
        by (simp add: inPhase_def eq proj_defs)
      then show ?thesis ..
    next
      case r
      with ph t rest_k have "inPhase k w' (RegisterAnswered u i' nm' g)"
        by (simp add: inPhase_def eq proj_defs)
      then show ?thesis ..
    qed
  qed
  have used: "k < nextInv w"
  proof (rule ccontr)
    assume "\<not> k < nextInv w"
    with c have "inPhase k w Unused" by (simp add: consistent_def)
    with qk show False by (simp add: inPhase_def)
  qed
  have "\<exists>ph'. inPhase n w' ph'" for n
  proof (cases "n = k")
    case True
    with new show ?thesis by simp
  next
    case False
    from c obtain ph' where "inPhase n w ph'" unfolding consistent_def by blast
    with other [OF False] show ?thesis by blast
  qed
  moreover have "inPhase n w' Unused" if "nextInv w' \<le> n" for n
  proof -
    from that have n: "nextInv w \<le> n" by (simp add: eq)
    with used have "n \<noteq> k" by simp
    moreover from c n have "inPhase n w Unused" by (simp add: consistent_def)
    ultimately show ?thesis using other by simp
  qed
  ultimately show ?thesis
    unfolding consistent_def w'_def by blast
qed

lemma consistent_drain_aux:
  "microtasks w = q \<Longrightarrow> consistent w \<Longrightarrow> consistent (drain w)"
proof (induction q arbitrary: w)
  case Nil
  then show ?case by (simp add: drain_Nil)
next
  case (Cons ot rest)
  let ?w' = "run_task (fst ot) (snd ot) (w\<lparr>microtasks := rest\<rparr>)"
  from Cons.prems have "microtasks w = (fst ot, snd ot) # rest" by simp
  with Cons.prems(2) have "consistent ?w'" by (rule consistent_run_task)
  moreover have "microtasks ?w' = rest" by (simp add: run_task_microtasks)
  ultimately have "consistent (drain ?w')" using Cons.IH by blast
  with Cons.prems(1) show ?case by (simp add: drain_Cons)
qed

lemma consistent_drain: "consistent w \<Longrightarrow> consistent (drain w)"
  by (rule consistent_drain_aux) simp_all

lemma consistent_onmessage:
  assumes "consistent w"
  shows "consistent (onmessage msg env w)"
proof -
  define w1 where "w1 = (case toolCall msg of None \<Rightarrow> w | Some fcs \<Rightarrow> handle_calls env 0 fcs w)"
  from assms have c1: "consistent w1"
    by (simp add: w1_def consistent_handle_calls split: option.splits)
  have "consistent (onmessage msg env w)"
    unfolding onmessage_def w1_def [symmetric] Let_def
    by (rule consistent_frame [OF c1])
      (simp_all add: proj_defs enqueue_def handleInterruption_def)
  then show ?thesis .
qed

lemma consistent_disconnect:
  assumes "consistent w"
  shows "consistent (disconnect w)"
proof (rule consistent_frame [OF assms])
  have "filter (\<lambda>e. fst e = Some n) (closeTasks fns) = []" for n fns
    by (induction fns) (simp_all add: closeTasks_def split: cleanup.splits)
  then show "queued n (disconnect w) = queued n w" for n
    by (simp add: queued_def disconnect_fields)
  have "filter (\<lambda>e. fst e = Some n) (releases w) = []" for n
    by (simp add: releases_def split: option.splits)
  then show "history n (disconnect w) = history n w" for n
    by (simp add: history_def disconnect_fields)
  show "waiting n (disconnect w) = waiting n w" for n
    by (simp add: waiting_def disconnect_fields)
  show "nextInv (disconnect w) = nextInv w"
    by (simp add: disconnect_fields)
qed

lemma consistent_emit_None: "consistent w \<Longrightarrow> consistent (emit None a w)"
  by (erule consistent_frame) (simp_all add: proj_defs emit_def)

lemma map_of_first:
  "map_of xs n = Some c \<Longrightarrow> \<exists>cs. map snd (filter (\<lambda>e. fst e = n) xs) = c # cs"
  by (induction xs) (auto split: if_splits)

lemma wait_of_cont:
  assumes "wait_of ph = c # cs" "queue_of ph = []"
  shows "cs = [] \<and>
    ((\<exists>s d i nm. ph = AnalyzeAnswered s d i nm \<and> c = TipsCont s)
     \<or> (\<exists>u i nm. ph = RegisterPending u i nm \<and> c = EmailCont u i nm))"
  using assms by (cases ph) simp_all

lemma resumed_tips:
  "generateTroubleshootingTips_resumed n s g w =
     w\<lparr>trace := trace w @ map (Pair (Some n)) (tipsOutcome s g)\<rparr>"
  by (cases g)
    (simp_all add: generateTroubleshootingTips_resumed_def tipsOutcome_def emit_def Let_def)

lemma resumed_draft:
  "generateEmailDraft_resumed n u i nm g w =
     w\<lparr>trace := trace w @ [(Some n, draftOutcome u g)],
       microtasks := microtasks w @ [(Some n, SendTask i nm (draftResult u g))]\<rparr>"
  by (cases g)
    (simp_all add: generateEmailDraft_resumed_def draftOutcome_def draftResult_def emit_def
      enqueue_def)

lemma filter_Pair_Some:
  "map snd (filter (\<lambda>e. fst e = Some m) (map (Pair (Some n)) xs)) = (if m = n then xs else [])"
  by (induction xs) auto

lemma consistent_resolve:
  assumes c: "consistent w" and q: "microtasks w = []"
  shows "consistent (resolve n g w)"
proof (cases "map_of (awaiting w) n")
  case None
  with c show ?thesis by (simp add: resolve_def)
next
  case (Some cont)
  define w' where "w' = resolve n g w"
  from map_of_first [OF Some] obtain cs where wn: "waiting n w = cont # cs"
    by (auto simp add: waiting_def)
  from c obtain ph where ph: "inPhase n w ph"
    unfolding consistent_def by blast
  from q have qn: "queued m w = []" for m by (simp add: queued_def)
  from ph wn qn [of n] have "wait_of ph = cont # cs" "queue_of ph = []"
    by (simp_all add: inPhase_def)
  from wait_of_cont [OF this]
  consider (a) s d i nm where "ph = AnalyzeAnswered s d i nm" "cont = TipsCont s"
    | (r) u i nm where "ph = RegisterPending u i nm" "cont = EmailCont u i nm"
    by blast
  then have main: "(\<exists>ph'. inPhase n w' ph') \<and> nextInv w' = nextInv w
      \<and> (\<forall>m. m \<noteq> n \<longrightarrow>
            history m w' = history m w \<and> queued m w' = queued m w \<and> waiting m w' = waiting m w)"
  proof cases
    case a
    have eq: "w' = w\<lparr>awaiting := filter (\<lambda>e. fst e \<noteq> n) (awaiting w),
        trace := trace w @ (Some n, GenerationSettled g) # map (Pair (Some n)) (tipsOutcome s g)\<rparr>"
      by (simp add: w'_def resolve_def Some a resumed_tips emit_def)
    from ph a q have "inPhase n w' (AnalyzeSettled s d i nm g)"
      by (simp add: inPhase_def eq proj_defs filter_Pair_Some comp_def)
    then have 1: "\<exists>ph'. inPhase n w' ph'" ..
    have 2: "nextInv w' = nextInv w" by (simp add: eq)
    have 3: "history m w' = history m w" if "m \<noteq> n" for m
      using that by (simp add: eq history_def filter_Pair_Some)
    have 4: "queued m w' = queued m w" for m
      by (simp add: eq queued_def)
    have 5: "waiting m w' = waiting m w" if "m \<noteq> n" for m
    proof -
      from that have "(\<lambda>e. fst e \<noteq> n \<and> fst e = m) = (\<lambda>e::nat \<times> cont. fst e = m)" by auto
      then show ?thesis by (simp add: eq waiting_def)
    qed
    from 1 2 3 4 5 show ?thesis by blast
  next
    case r
    have eq: "w' = w\<lparr>awaiting := filter (\<lambda>e. fst e \<noteq> n) (awaiting w),
        trace := trace w @ [(Some n, GenerationSettled g), (Some n, draftOutcome u g)],
        microtasks := [(Some n, SendTask i nm (draftResult u g))]\<rparr>"
      by (simp add: w'_def resolve_def Some r resumed_draft emit_def q)
    from ph r q have "inPhase n w' (RegisterSettled u i nm g)"
      by (simp add: inPhase_def eq proj_defs)
    then have 1: "\<exists>ph'. inPhase n w' ph'" ..
    have 2: "nextInv w' = nextInv w" by (simp add: eq)
    have 3: "history m w' = history m w" if "m \<noteq> n" for m
      using that by (simp add: eq history_def)
    have 4: "queued m w' = queued m w" if "m \<noteq> n" for m
      using that by (simp add: eq queued_def q)
    have 5: "waiting m w' = waiting m w" if "m \<noteq> n" for m
    proof -
      from that have "(\<lambda>e. fst e \<noteq> n \<and> fst e = m) = (\<lambda>e::nat \<times> cont. fst e = m)" by auto
      then show ?thesis by (simp add: eq waiting_def)
    qed
    from 1 2 3 4 5 show ?thesis by blast
  qed
  then have new: "\<exists>ph'. inPhase n w' ph'"
    and eqs: "nextInv w' = nextInv w"
      "\<And>m. m \<noteq> n \<Longrightarrow> history m w' = history m w"
      "\<And>m. m \<noteq> n \<Longrightarrow> queued m w' = queued m w"
      "\<And>m. m \<noteq> n \<Longrightarrow> waiting m w' = waiting m w"
    by blast+
  have used: "n < nextInv w"
  proof (rule ccontr)
    assume "\<not> n < nextInv w"
    with c have "inPhase n w Unused" by (simp add: consistent_def)
    with wn show False by (simp add: inPhase_def)
  qed
  have other: "inPhase m w' ph' = inPhase m w ph'" if "m \<noteq> n" for m ph'
    using that by (intro inPhase_frame eqs)
  have "\<exists>ph'. inPhase m w' ph'" for m
  proof (cases "m = n")
    case True
    with new show ?thesis by simp
  next
    case False
    from c obtain ph' where "inPhase m w ph'" unfolding consistent_def by blast
    with other [OF False] show ?thesis by blast
  qed
  moreover have "inPhase m w' Unused" if "nextInv w' \<le> m" for m
  proof -
    from that have m: "nextInv w \<le> m" by (simp add: eqs)
    with used have "m \<noteq> n" by simp
    moreover from c m have "inPhase m w Unused" by (simp add: consistent_def)
    ultimately show ?thesis using other by simp
  qed
  ultimately show ?thesis
    unfolding consistent_def w'_def by blast
qed

lemma consistent_step:
  assumes "consistent w" "microtasks w = []"
  shows "consistent (step w ev)"
  unfolding step_def
  by (rule consistent_drain, cases ev)
    (simp_all add: assms consistent_onmessage consistent_resolve consistent_disconnect
      consistent_emit_None onclose_def onerror_def)

lemma consistent_run:
  "consistent w \<Longrightarrow> microtasks w = [] \<Longrightarrow> consistent (run w evs) \<and> microtasks (run w evs) = []"
  by (induction evs arbitrary: w) (simp_all add: run_Nil run_Cons consistent_step step_microtasks)

lemma quiescent_phase:
  assumes "consistent w" "microtasks w = []"
  obtains ph where "inPhase n w ph" "queue_of ph = []"
proof -
  from assms(1) obtain ph where ph: "inPhase n w ph"
    unfolding consistent_def by blast
  with assms(2) have "queue_of ph = []"
    by (simp add: inPhase_def queued_def)
  with ph show ?thesis by (rule that)
qed

lemma reachable_consistent:
  assumes "trace w0 = []" "microtasks w0 = []" "awaiting w0 = []"
  shows "consistent (run w0 evs)" "microtasks (run w0 evs) = []"
  using consistent_run [OF consistent_fresh [OF assms] assms(2)] by simp_all

lemma map_of_from_filter:
  "map snd (filter (\<lambda>e. fst e = n) xs) = c # cs \<Longrightarrow> map_of xs n = Some c"
  by (induction xs) (auto split: if_splits)

subsection \<open>Example runs\<close>

lemma demo_register_run:
  "run freshManager [Message (toolMsg demoRegister) demoEnv] =
     freshManager\<lparr>nextInv := 1,
       trace := [(Some 0, TicketCreated (demoTicket\<lparr>sistema := [], descripcion := [], ticketId := Some (js ''T-55000'')\<rparr>)),
                 (Some 0, GenerateContent (EmailPrompt (demoTicket\<lparr>sistema := [], descripcion := [], ticketId := Some (js ''T-55000'')\<rparr>)))],
       awaiting := [(0, EmailCont (demoTicket\<lparr>sistema := [], descripcion := [], ticketId := Some (js ''T-55000'')\<rparr>)
                         (js ''call-1'') (js ''registerSupportTicket''))]\<rparr>"
  by (simp add: run_def loop_defs handle_call_register toolMsg_def demoRegister_def demoEnv_def
      demoTicket_def freshManager_def orEmpty_def newTicketId_def Number_toString_def decimal.simps js_def
      round64_numeral)



lemma demo_register_run':
  "run freshManager [Message (toolMsg demoRegister) demoEnv] =
     freshManager\<lparr>nextInv := 1,
       trace := [(Some 0, TicketCreated demoCreated), (Some 0, GenerateContent (EmailPrompt demoCreated))],
       awaiting := [(0, EmailCont demoCreated (js ''call-1'') (js ''registerSupportTicket''))]\<rparr>"
  by (simp add: demo_register_run demoCreated_def)



lemma demo_register_failed:
  "trace (step (run freshManager [Message (toolMsg demoRegister) demoEnv]) (Generated 0 GenFailed)) =
     [(Some 0, TicketCreated demoCreated), (Some 0, GenerateContent (EmailPrompt demoCreated)),
      (Some 0, GenerationSettled GenFailed), (Some 0, ConsoleError),
      (Some 0, ToolResponse (js ''call-1'') (js ''registerSupportTicket'')
         (js ''Error generando borrador, pero el ticket T-55000 fue registrado.''))]"
  unfolding demo_register_run'
  by (simp add: loop_defs freshManager_def demoCreated_def demoTicket_def templ_def js_def)



lemma fresh_idle:
  "trace freshManager = []" "microtasks freshManager = []" "awaiting freshManager = []"
  by (simp_all add: freshManager_def)

section \<open>Ordering of a register-ticket invocation\<close>



section \<open>Ordering of an analyze-problem invocation\<close>



section \<open>A draft that fails\<close>

text \<open>
  C8. In every reachable state in which the draft request of a register-ticket invocation is
  pending, the failure of that request adds exactly three actions to the trace: the settling,
  the log entry of the failure, and a tool response whose text says that the ticket, named by
  its identifier, was registered although the draft failed. No email-ready event is emitted,
  and the trace so far, with the ticket-created event and its ticket, stands as it was.
\<close>

theorem draft_failure_still_answers:
  assumes "trace w0 = []" and "microtasks w0 = []" and "awaiting w0 = []"
    and "history n (run w0 evs) = [TicketCreated t, GenerateContent (EmailPrompt t)]"
  shows "\<exists>i nm tid. ticketId t = Some tid
      \<and> trace (step (run w0 evs) (Generated n GenFailed)) =
          trace (run w0 evs) @
            [(Some n, GenerationSettled GenFailed), (Some n, ConsoleError),
             (Some n, ToolResponse i nm
                (js ''Error generando borrador, pero el ticket '' @ tid @ js '' fue registrado.''))]"
proof -
  define w where "w = run w0 evs"
  note r = reachable_consistent [OF assms(1-3), of evs, folded w_def]
  from r obtain ph where ph: "inPhase n w ph" "queue_of ph = []"
    by (rule quiescent_phase)
  from ph(1) assms(4) have "hist_of ph = [TicketCreated t, GenerateContent (EmailPrompt t)]"
    by (simp add: inPhase_def w_def)
  then obtain i nm where "ph = RegisterPending t i nm"
    by (cases ph) simp_all
  with ph(1) have wt: "waiting n w = [EmailCont t i nm]" and "ticketId t \<noteq> None"
    by (simp_all add: inPhase_def)
  then obtain tid where tid: "ticketId t = Some tid" by blast
  from wt have m: "map_of (awaiting w) n = Some (EmailCont t i nm)"
    by (intro map_of_from_filter) (simp add: waiting_def)
  have "trace (step w (Generated n GenFailed)) =
      trace w @ [(Some n, GenerationSettled GenFailed), (Some n, ConsoleError),
                 (Some n, ToolResponse i nm
                    (js ''Error generando borrador, pero el ticket '' @ tid @ js '' fue registrado.''))]"
    using r(2) tid
    by (simp add: step_def resolve_def m resumed_draft emit_def drain_run_tasks run_tasks_Cons
        run_tasks_Nil run_task_def draftOutcome_def draftResult_def templ_def)
  with tid show ?thesis
    unfolding w_def by blast
qed

theorem draft_failure_still_answers_witness:
  "trace freshManager = [] \<and> microtasks freshManager = [] \<and> awaiting freshManager = []
   \<and> history 0 (run freshManager [Message (toolMsg demoRegister) demoEnv])
      = [TicketCreated demoCreated, GenerateContent (EmailPrompt demoCreated)]
   \<and> trace (step (run freshManager [Message (toolMsg demoRegister) demoEnv]) (Generated 0 GenFailed))
      = [(Some 0, TicketCreated demoCreated), (Some 0, GenerateContent (EmailPrompt demoCreated)),
         (Some 0, GenerationSettled GenFailed), (Some 0, ConsoleError),
         (Some 0, ToolResponse (js ''call-1'') (js ''registerSupportTicket'')
            (js ''Error generando borrador, pero el ticket T-55000 fue registrado.''))]"
  using draft_failure_still_answers [of freshManager 0 "[Message (toolMsg demoRegister) demoEnv]" demoCreated]
  by (simp add: fresh_idle history_def demo_register_failed) (simp add: demo_register_run')

section \<open>A register-ticket call without argument object\<close>

lemma handle_FunctionCall_withArgs:
  assumes "call_args fc = Some args"
  shows "handle_FunctionCall env i fc w = Returned (handle_call env i (withArgs fc) w)"
  using assms names_differ
  by (simp add: handle_FunctionCall_def handle_call_def withArgs_def Let_def)

lemma handle_FunctionCalls_withArgs:
  "list_all (\<lambda>fc. call_args fc \<noteq> None) fcs \<Longrightarrow>
     handle_FunctionCalls env i fcs w = Returned (handle_calls env i (map withArgs fcs) w)"
proof (induction fcs arbitrary: i w)
  case Nil
  then show ?case by simp
next
  case (Cons fc fcs)
  then obtain args where "call_args fc = Some args" by auto
  with Cons show ?case by (simp add: handle_FunctionCall_withArgs)
qed

text \<open>On a message all of whose calls carry their argument object the handler never throws,
  and does what \<open>onmessage\<close> does.\<close>

lemma onmessage_sdk_complete:
  assumes "complete msg"
  shows "onmessage_sdk msg env w = Returned (onmessage (withAllArgs msg) env w)"
proof (cases "functionCalls msg")
  case None
  then show ?thesis
    by (simp add: onmessage_sdk_def withAllArgs_def)
next
  case (Some fcs)
  with assms have "list_all (\<lambda>fc. call_args fc \<noteq> None) fcs"
    by (simp add: complete_def)
  then have "handle_FunctionCalls env 0 fcs w = Returned (handle_calls env 0 (map withArgs fcs) w)"
    by (rule handle_FunctionCalls_withArgs)
  with Some show ?thesis
    by (auto simp add: onmessage_sdk_def withAllArgs_def onmessage_def Let_def)
qed

lemma step_sdk_complete: "complete msg \<Longrightarrow> step_sdk w msg env = step w (Message (withAllArgs msg) env)"
  by (simp add: step_sdk_def step_def onmessage_sdk_complete)

text \<open>
  C10. A register-ticket call that carries its argument object gives a ticket in which every
  argument among correo, municipalidad, sistema and descripcion that is missing or is the
  empty string is the empty string, and every other one is taken as it is; the ticket-created
  event is emitted and the draft request follows. A register-ticket call without argument
  object, in which all four arguments are missing, does fail: the handler throws before it
  builds the ticket, so nothing is emitted, nothing is queued and no draft is requested, and
  the task leaves the manager as it was; the rest of the message is dropped with it.
\<close>

theorem register_call_without_args:
  "(call_name fc = js ''registerSupportTicket'' \<and> call_args fc = None \<longrightarrow>
      handle_FunctionCall env i fc w = Threw w
      \<and> handle_FunctionCalls env i (fc # fcs) w = Threw w
      \<and> (microtasks w = [] \<and> functionCalls msg = Some (fc # fcs) \<longrightarrow> step_sdk w msg env = w))
   \<and> (call_name fc = js ''registerSupportTicket'' \<and> call_args fc = Some args \<longrightarrow>
        (\<exists>uiTicket w'.
           handle_FunctionCall env i fc w = Returned w'
           \<and> trace w' = trace w @ [(Some (nextInv w), TicketCreated uiTicket),
                                     (Some (nextInv w), GenerateContent (EmailPrompt uiTicket))]
           \<and> (args ''correo'' = None \<or> args ''correo'' = Some [] \<longrightarrow> correo uiTicket = [])
           \<and> (args ''municipalidad'' = None \<or> args ''municipalidad'' = Some []
                 \<longrightarrow> municipalidad uiTicket = [])
           \<and> (args ''sistema'' = None \<or> args ''sistema'' = Some [] \<longrightarrow> sistema uiTicket = [])
           \<and> (args ''descripcion'' = None \<or> args ''descripcion'' = Some []
                 \<longrightarrow> descripcion uiTicket = [])
           \<and> (\<forall>v. args ''correo'' = Some v \<longrightarrow> correo uiTicket = v)
           \<and> (\<forall>v. args ''municipalidad'' = Some v \<longrightarrow> municipalidad uiTicket = v)
           \<and> (\<forall>v. args ''sistema'' = Some v \<longrightarrow> sistema uiTicket = v)
           \<and> (\<forall>v. args ''descripcion'' = Some v \<longrightarrow> descripcion uiTicket = v)))"
proof (intro conjI impI)
  assume a: "call_name fc = js ''registerSupportTicket'' \<and> call_args fc = None"
  with names_differ show t: "handle_FunctionCall env i fc w = Threw w"
    by (auto simp add: handle_FunctionCall_def)
  then show ts: "handle_FunctionCalls env i (fc # fcs) w = Threw w"
    by simp
  show "step_sdk w msg env = w" if "microtasks w = [] \<and> functionCalls msg = Some (fc # fcs)"
  proof -
    from a names_differ have "handle_FunctionCalls env 0 (fc # fcs) w = Threw w"
      by (auto simp add: handle_FunctionCall_def)
    with that show ?thesis
      by (simp add: step_sdk_def onmessage_sdk_def drain_Nil)
  qed
next
  assume a: "call_name fc = js ''registerSupportTicket'' \<and> call_args fc = Some args"
  let ?t = "\<lparr>correo = orEmpty (args ''correo''),
             municipalidad = orEmpty (args ''municipalidad''),
             sistema = orEmpty (args ''sistema''),
             descripcion = orEmpty (args ''descripcion''),
             timestamp = isoNow env i,
             ticketId = Some (newTicketId (mathRandom env i))\<rparr>"
  let ?w' = "generateEmailDraft (nextInv w) ?t (call_id fc) (call_name fc)
      (emit (Some (nextInv w)) (TicketCreated ?t) (w\<lparr>nextInv := Suc (nextInv w)\<rparr>))"
  from a names_differ have r: "handle_FunctionCall env i fc w = Returned ?w'"
    by (simp add: handle_FunctionCall_def Let_def)
  have tr: "trace ?w' = trace w @ [(Some (nextInv w), TicketCreated ?t),
                                   (Some (nextInv w), GenerateContent (EmailPrompt ?t))]"
    by (simp add: generateEmailDraft_def emit_def)
  have none: "orEmpty None = []" and empty: "orEmpty (Some []) = []"
    and some: "\<And>v. orEmpty (Some v) = v"
    by (simp_all add: orEmpty_def)
  have f: "(args ''correo'' = None \<or> args ''correo'' = Some [] \<longrightarrow> correo ?t = [])
      \<and> (args ''municipalidad'' = None \<or> args ''municipalidad'' = Some [] \<longrightarrow> municipalidad ?t = [])
      \<and> (args ''sistema'' = None \<or> args ''sistema'' = Some [] \<longrightarrow> sistema ?t = [])
      \<and> (args ''descripcion'' = None \<or> args ''descripcion'' = Some [] \<longrightarrow> descripcion ?t = [])
      \<and> (\<forall>v. args ''correo'' = Some v \<longrightarrow> correo ?t = v)
      \<and> (\<forall>v. args ''municipalidad'' = Some v \<longrightarrow> municipalidad ?t = v)
      \<and> (\<forall>v. args ''sistema'' = Some v \<longrightarrow> sistema ?t = v)
      \<and> (\<forall>v. args ''descripcion'' = Some v \<longrightarrow> descripcion ?t = v)"
    by (auto simp add: none some)
  from r tr f show "\<exists>uiTicket w'.
           handle_FunctionCall env i fc w = Returned w'
           \<and> trace w' = trace w @ [(Some (nextInv w), TicketCreated uiTicket),
                                     (Some (nextInv w), GenerateContent (EmailPrompt uiTicket))]
           \<and> (args ''correo'' = None \<or> args ''correo'' = Some [] \<longrightarrow> correo uiTicket = [])
           \<and> (args ''municipalidad'' = None \<or> args ''municipalidad'' = Some []
                 \<longrightarrow> municipalidad uiTicket = [])
           \<and> (args ''sistema'' = None \<or> args ''sistema'' = Some [] \<longrightarrow> sistema uiTicket = [])
           \<and> (args ''descripcion'' = None \<or> args ''descripcion'' = Some []
                 \<longrightarrow> descripcion uiTicket = [])
           \<and> (\<forall>v. args ''correo'' = Some v \<longrightarrow> correo uiTicket = v)
           \<and> (\<forall>v. args ''municipalidad'' = Some v \<longrightarrow> municipalidad uiTicket = v)
           \<and> (\<forall>v. args ''sistema'' = Some v \<longrightarrow> sistema uiTicket = v)
           \<and> (\<forall>v. args ''descripcion'' = Some v \<longrightarrow> descripcion uiTicket = v)"
    by blast
qed

theorem register_call_without_args_witness:
  "call_name bareRegister = js ''registerSupportTicket'' \<and> call_args bareRegister = None
   \<and> microtasks freshManager = [] \<and> functionCalls bareMsg = Some [bareRegister]
   \<and> handle_FunctionCall demoEnv 0 bareRegister freshManager = Threw freshManager
   \<and> step_sdk freshManager bareMsg demoEnv = freshManager
   \<and> trace (step_sdk freshManager bareMsg demoEnv) = []
   \<and> awaiting (step_sdk freshManager bareMsg demoEnv) = []"
  using register_call_without_args [of bareRegister demoEnv 0 freshManager "[]" bareMsg Map.empty]
  by (simp add: bareRegister_def bareMsg_def freshManager_def)

end
